theory Spec2Isabelle
  imports Main "HOL-Library.Word"
begin

unbundle bit_operations_syntax

section \<open>Data model of the CHIP-8 emulator\<close>

text \<open>
  Machine integers of the C++ source: \<open>uint8_t\<close> and \<open>uint16_t\<close> are words;
  \<open>size_t\<close> values are natural numbers (no computation of the emulator comes near
  the 64-bit limit). \<open>u4\<close> of \<open>types.h\<close> is a 4-bit bit-field built from a
  \<open>size_t\<close> by \<open>% 16\<close> and read back as a \<open>size_t\<close>; its \<open>++\<close> wraps from 15 to 0.
\<close>

type_synonym u8 = "8 word"
type_synonym u16 = "16 word"
type_synonym u4 = "4 word"

definition u4_of :: "nat \<Rightarrow> u4" where
  "u4_of x = of_nat (x mod 16)"

text \<open>
  \<open>enum Key { K0 = 0, ..., KF }\<close> of \<open>keyboard.h\<close>: sixteen values numbered 0 to 15,
  used only through \<open>static_cast\<close> from and to integers.
\<close>

type_synonym Key = u4

text \<open>
  Everything \<open>evaluate_instruction\<close> can end with other than a normal return. The first
  seven are the \<open>std::runtime_error\<close>s thrown by the source. \<open>OutOfRange\<close> is not thrown
  by the source: it marks an index outside a \<open>std::array\<close> that no check guards.
\<close>

datatype error =
    RetStackEmpty
  | CallStackFull
  | CallOutsideMemory
  | BcdOutsideMemory
  | NibbleIndex
  | InvalidRegister
  | UnknownInstruction u16
  | OutOfRange

definition read_at :: "'a list \<Rightarrow> nat \<Rightarrow> error + 'a" where
  "read_at xs i = (if i < length xs then Inr (xs ! i) else Inl OutOfRange)"

definition write_at :: "'a list \<Rightarrow> nat \<Rightarrow> 'a \<Rightarrow> error + 'a list" where
  "write_at xs i v = (if i < length xs then Inr (xs[i := v]) else Inl OutOfRange)"

text \<open>\<open>Timer60hz\<close> of \<open>timer.h\<close>; the steady clock is read in microseconds.\<close>

record Timer60hz =
  tvalue :: u8
  timestamp :: nat

definition timer_value :: "Timer60hz \<Rightarrow> nat \<Rightarrow> u8" where
  "timer_value t now =
     (if tvalue t = 0 then tvalue t
      else let duration = now - timestamp t;
               ticks_elapsed = 60 * (duration div (1000 * 1000)) + (duration mod (1000 * 1000)) div 16667
           in if ticks_elapsed \<ge> unat (tvalue t) then 0
              else tvalue t - of_nat ticks_elapsed)"

definition timer_set :: "u8 \<Rightarrow> nat \<Rightarrow> Timer60hz" where
  "timer_set new_value now = \<lparr>tvalue = new_value, timestamp = now\<rparr>"

text \<open>
  The members of \<open>class Emulator\<close>. The register file and the key states are arrays of
  16 entries indexed by a 4-bit value, so every index is in range: they are functions
  on \<open>u4\<close>. Memory, call stack and display buffer are indexed by wider integers and are
  lists, of the lengths \<open>wf_emulator\<close> states.
\<close>

record emulator =
  display_buffer :: "bool list"
  keyboard_state :: "Key \<Rightarrow> bool"
  sound_timer :: Timer60hz
  delay_timer :: Timer60hz
  memory :: "u8 list"
  program_counter :: u16
  stack_frames :: "u16 list"
  stack_pointer :: u8
  gp_registers :: "u4 \<Rightarrow> u8"
  i_register :: u16

definition SCREEN_WIDTH :: nat where "SCREEN_WIDTH = 64"
definition SCREEN_HEIGHT :: nat where "SCREEN_HEIGHT = 32"
definition SPRITE_WIDTH :: nat where "SPRITE_WIDTH = 8"
definition BUILT_IN_CHAR_STARTING_ADDRESS :: nat where "BUILT_IN_CHAR_STARTING_ADDRESS = 0x100"
definition PROGRAM_STARTING_ADDRESS :: nat where "PROGRAM_STARTING_ADDRESS = 0x200"

definition wf_emulator :: "emulator \<Rightarrow> bool" where
  "wf_emulator s \<longleftrightarrow>
     length (memory s) = 4096 \<and>
     length (stack_frames s) = 16 \<and>
     length (display_buffer s) = SCREEN_WIDTH * SCREEN_HEIGHT"

text \<open>
  What one instruction takes from outside the emulator object: the next output of the
  random distribution (0 to 255), the steady clock, and the key the channel hands to
  \<open>block_until_next_keypress\<close>.
\<close>

record environment =
  random_u8 :: nat
  clock_now :: nat
  next_keypress :: Key

section \<open>Instructions\<close>

definition advance :: "emulator \<Rightarrow> emulator" where
  "advance s = s\<lparr>program_counter := program_counter s + 2\<rparr>"

definition skip :: "emulator \<Rightarrow> emulator" where
  "skip s = s\<lparr>program_counter := program_counter s + 2 * 2\<rparr>"

definition set_reg :: "u4 \<Rightarrow> u8 \<Rightarrow> emulator \<Rightarrow> emulator" where
  "set_reg r v s = s\<lparr>gp_registers := (gp_registers s)(r := v)\<rparr>"

definition sys :: "emulator \<Rightarrow> u16 \<Rightarrow> emulator" where
  "sys s address = advance s"

definition cls :: "emulator \<Rightarrow> emulator" where
  "cls s = advance (s\<lparr>display_buffer := map (\<lambda>_. False) (display_buffer s)\<rparr>)"

definition ret :: "emulator \<Rightarrow> error + emulator" where
  "ret s =
     (if stack_pointer s = 0 then Inl RetStackEmpty
      else let sp = stack_pointer s - 1
           in case read_at (stack_frames s) (unat sp) of
                Inl e \<Rightarrow> Inl e
              | Inr a \<Rightarrow> Inr (s\<lparr>stack_pointer := sp, program_counter := a\<rparr>))"

definition jp :: "emulator \<Rightarrow> u16 \<Rightarrow> emulator" where
  "jp s address = s\<lparr>program_counter := address\<rparr>"

definition call :: "emulator \<Rightarrow> u16 \<Rightarrow> error + emulator" where
  "call s target_address =
     (if unat (stack_pointer s) > 15 then Inl CallStackFull
      else if unat target_address \<ge> length (memory s) - 1 then Inl CallOutsideMemory
      else case write_at (stack_frames s) (unat (stack_pointer s)) (program_counter s + 2) of
             Inl e \<Rightarrow> Inl e
           | Inr frames \<Rightarrow>
               Inr (s\<lparr>stack_frames := frames,
                      stack_pointer := stack_pointer s + 1,
                      program_counter := target_address\<rparr>))"

definition skip_equal :: "emulator \<Rightarrow> u4 \<Rightarrow> u8 \<Rightarrow> emulator" where
  "skip_equal s reg v = (if gp_registers s reg = v then skip s else advance s)"

definition skip_not_equal :: "emulator \<Rightarrow> u4 \<Rightarrow> u8 \<Rightarrow> emulator" where
  "skip_not_equal s reg v = (if gp_registers s reg \<noteq> v then skip s else advance s)"

definition skip_equal_reg :: "emulator \<Rightarrow> u4 \<Rightarrow> u4 \<Rightarrow> emulator" where
  "skip_equal_reg s reg_a reg_b =
     (if gp_registers s reg_a = gp_registers s reg_b then skip s else advance s)"

definition load :: "emulator \<Rightarrow> u4 \<Rightarrow> u8 \<Rightarrow> emulator" where
  "load s reg y = advance (set_reg reg y s)"

definition add :: "emulator \<Rightarrow> u4 \<Rightarrow> u8 \<Rightarrow> emulator" where
  "add s reg y = advance (set_reg reg (gp_registers s reg + y) s)"

definition load_reg :: "emulator \<Rightarrow> u4 \<Rightarrow> u4 \<Rightarrow> emulator" where
  "load_reg s reg_a reg_b = advance (set_reg reg_a (gp_registers s reg_b) s)"

definition bitwise_or :: "emulator \<Rightarrow> u4 \<Rightarrow> u4 \<Rightarrow> emulator" where
  "bitwise_or s reg_a reg_b =
     advance (set_reg reg_a (gp_registers s reg_a OR gp_registers s reg_b) s)"

definition bitwise_and :: "emulator \<Rightarrow> u4 \<Rightarrow> u4 \<Rightarrow> emulator" where
  "bitwise_and s reg_a reg_b =
     advance (set_reg reg_a (gp_registers s reg_a AND gp_registers s reg_b) s)"

definition bitwise_xor :: "emulator \<Rightarrow> u4 \<Rightarrow> u4 \<Rightarrow> emulator" where
  "bitwise_xor s reg_a reg_b =
     advance (set_reg reg_a (gp_registers s reg_a XOR gp_registers s reg_b) s)"

text \<open>
  8xy4. The source adds first and computes the flag afterwards, from the registers as
  they are after the addition.
\<close>

definition carry_add_reg :: "emulator \<Rightarrow> u4 \<Rightarrow> u4 \<Rightarrow> emulator" where
  "carry_add_reg s reg_a reg_b =
     (let s1 = set_reg reg_a (gp_registers s reg_a + gp_registers s reg_b) s;
          s2 = set_reg 0xf
                 (if unat (gp_registers s1 reg_a) + unat (gp_registers s1 reg_b) > 0xff
                  then 1 else 0) s1
      in advance s2)"

text \<open>8xy5. The flag is written first, the subtraction reads the registers after that.\<close>

definition carry_sub_reg :: "emulator \<Rightarrow> u4 \<Rightarrow> u4 \<Rightarrow> emulator" where
  "carry_sub_reg s reg_a reg_b =
     (let s1 = set_reg 0xf (if gp_registers s reg_a \<ge> gp_registers s reg_b then 1 else 0) s;
          s2 = set_reg reg_a (gp_registers s1 reg_a - gp_registers s1 reg_b) s1
      in advance s2)"

text \<open>8x_6. The source shifts first and takes the flag from the shifted register.\<close>

definition shift_right :: "emulator \<Rightarrow> u4 \<Rightarrow> emulator" where
  "shift_right s reg =
     (let s1 = set_reg reg (drop_bit 1 (gp_registers s reg)) s;
          s2 = set_reg 0xf (0x01 AND gp_registers s1 reg) s1
      in advance s2)"

definition subtract_reversed :: "emulator \<Rightarrow> u4 \<Rightarrow> u4 \<Rightarrow> emulator" where
  "subtract_reversed s reg_a reg_b =
     (let s1 = set_reg 0xf (if gp_registers s reg_b \<ge> gp_registers s reg_a then 1 else 0) s;
          s2 = set_reg reg_a (gp_registers s1 reg_b - gp_registers s1 reg_a) s1
      in advance s2)"

definition shift_left :: "emulator \<Rightarrow> u4 \<Rightarrow> emulator" where
  "shift_left s reg =
     (let s1 = set_reg 0xf (if 0x80 AND gp_registers s reg \<noteq> 0 then 1 else 0) s;
          s2 = set_reg reg (push_bit 1 (gp_registers s1 reg)) s1
      in advance s2)"

definition skip_not_equal_reg :: "emulator \<Rightarrow> u4 \<Rightarrow> u4 \<Rightarrow> emulator" where
  "skip_not_equal_reg s reg_a reg_b =
     (if gp_registers s reg_a \<noteq> gp_registers s reg_b then skip s else advance s)"

definition load_address :: "emulator \<Rightarrow> u16 \<Rightarrow> emulator" where
  "load_address s address = advance (s\<lparr>i_register := address\<rparr>)"

definition jump_reg0 :: "emulator \<Rightarrow> u16 \<Rightarrow> emulator" where
  "jump_reg0 s address_offset =
     s\<lparr>program_counter := ucast (gp_registers s 0) + address_offset\<rparr>"

definition random_int :: "environment \<Rightarrow> emulator \<Rightarrow> u4 \<Rightarrow> u8 \<Rightarrow> emulator" where
  "random_int env s reg y = advance (set_reg reg (of_nat (random_u8 env) AND y) s)"

text \<open>
  Dxyn. One pixel of the inner loop body: the buffer cell is XOR-ed with the sprite bit,
  and VF is set when the cell was on before and is off after.
\<close>

definition draw_pixel :: "u8 \<Rightarrow> u8 \<Rightarrow> u8 \<Rightarrow> nat \<Rightarrow> nat \<Rightarrow> emulator \<Rightarrow> emulator" where
  "draw_pixel ul_xpos ul_ypos row row_i bit_i s =
     (let xpos = (unat ul_xpos + bit_i) mod SCREEN_WIDTH;
          ypos = (unat ul_ypos + row_i) mod SCREEN_HEIGHT;
          before_v = display_buffer s ! (xpos + ypos * SCREEN_WIDTH);
          after_v = (before_v \<noteq> (row AND drop_bit bit_i 0x80 \<noteq> 0));
          s1 = s\<lparr>display_buffer := (display_buffer s)[xpos + ypos * SCREEN_WIDTH := after_v]\<rparr>
      in if before_v \<and> \<not> after_v then set_reg 0xf 1 s1 else s1)"

function draw_bits :: "u8 \<Rightarrow> u8 \<Rightarrow> u8 \<Rightarrow> nat \<Rightarrow> nat \<Rightarrow> emulator \<Rightarrow> emulator" where
  "draw_bits ul_xpos ul_ypos row row_i bit_i s =
     (if bit_i < SPRITE_WIDTH
      then draw_bits ul_xpos ul_ypos row row_i (bit_i + 1)
             (draw_pixel ul_xpos ul_ypos row row_i bit_i s)
      else s)"
  by pat_completeness auto
termination
  by (relation "measure (\<lambda>(ul_xpos, ul_ypos, row, row_i, bit_i, s). SPRITE_WIDTH - bit_i)") auto

function draw_rows :: "u8 \<Rightarrow> u8 \<Rightarrow> nat \<Rightarrow> nat \<Rightarrow> emulator \<Rightarrow> error + emulator" where
  "draw_rows ul_xpos ul_ypos n row_i s =
     (if row_i < n
      then case read_at (memory s) (unat (i_register s) + row_i) of
             Inl e \<Rightarrow> Inl e
           | Inr row \<Rightarrow>
               draw_rows ul_xpos ul_ypos n (row_i + 1) (draw_bits ul_xpos ul_ypos row row_i 0 s)
      else Inr s)"
  by pat_completeness auto
termination
  by (relation "measure (\<lambda>(ul_xpos, ul_ypos, n, row_i, s). n - row_i)") auto

definition draw_sprite :: "emulator \<Rightarrow> u4 \<Rightarrow> u4 \<Rightarrow> u4 \<Rightarrow> error + emulator" where
  "draw_sprite s reg_x reg_y v =
     (let s0 = set_reg 0xf 0 s;
          ul_xpos = gp_registers s0 reg_x;
          ul_ypos = gp_registers s0 reg_y
      in case draw_rows ul_xpos ul_ypos (unat v) 0 s0 of
           Inl e \<Rightarrow> Inl e
         | Inr s1 \<Rightarrow> Inr (advance s1))"

definition is_key_pressed :: "emulator \<Rightarrow> Key \<Rightarrow> bool" where
  "is_key_pressed s key = keyboard_state s key"

definition skip_if_key_press :: "emulator \<Rightarrow> u4 \<Rightarrow> emulator" where
  "skip_if_key_press s reg =
     (let key = u4_of (unat (gp_registers s reg) mod 16)
      in if is_key_pressed s key then skip s else advance s)"

definition skip_if_not_key_press :: "emulator \<Rightarrow> u4 \<Rightarrow> emulator" where
  "skip_if_not_key_press s reg =
     (let key = u4_of (unat (gp_registers s reg) mod 16)
      in if \<not> is_key_pressed s key then skip s else advance s)"

definition load_from_delay_timer :: "environment \<Rightarrow> emulator \<Rightarrow> u4 \<Rightarrow> emulator" where
  "load_from_delay_timer env s reg =
     advance (set_reg reg (timer_value (delay_timer s) (clock_now env)) s)"

definition load_from_next_keypress :: "environment \<Rightarrow> emulator \<Rightarrow> u4 \<Rightarrow> emulator" where
  "load_from_next_keypress env s reg = advance (set_reg reg (ucast (next_keypress env)) s)"

definition set_delay :: "environment \<Rightarrow> emulator \<Rightarrow> u4 \<Rightarrow> emulator" where
  "set_delay env s reg =
     advance (s\<lparr>delay_timer := timer_set (gp_registers s reg) (clock_now env)\<rparr>)"

definition set_sound :: "environment \<Rightarrow> emulator \<Rightarrow> u4 \<Rightarrow> emulator" where
  "set_sound env s reg =
     advance (s\<lparr>sound_timer := timer_set (gp_registers s reg) (clock_now env)\<rparr>)"

definition increment_i_reg :: "emulator \<Rightarrow> u4 \<Rightarrow> emulator" where
  "increment_i_reg s reg = advance (s\<lparr>i_register := i_register s + ucast (gp_registers s reg)\<rparr>)"

definition load_sprite :: "emulator \<Rightarrow> u4 \<Rightarrow> emulator" where
  "load_sprite s reg =
     advance (s\<lparr>i_register :=
                 of_nat (BUILT_IN_CHAR_STARTING_ADDRESS + 5 * (unat (gp_registers s reg) mod 16))\<rparr>)"

definition load_bcd :: "emulator \<Rightarrow> u4 \<Rightarrow> error + emulator" where
  "load_bcd s reg =
     (if unat (i_register s) \<ge> length (memory s) - 2 then Inl BcdOutsideMemory
      else let i = unat (i_register s); v = unat (gp_registers s reg)
           in case write_at (memory s) i (of_nat (v mod 10)) of
                Inl e \<Rightarrow> Inl e
              | Inr m1 \<Rightarrow>
                  (case write_at m1 (i + 1) (of_nat ((v mod 100 - v mod 10) div 10)) of
                     Inl e \<Rightarrow> Inl e
                   | Inr m2 \<Rightarrow>
                       (case write_at m2 (i + 2) (of_nat ((v - v mod 100) div 100)) of
                          Inl e \<Rightarrow> Inl e
                        | Inr m3 \<Rightarrow> Inr (advance (s\<lparr>memory := m3\<rparr>)))))"

text \<open>
  Fx55 and Fx65. The loop counter \<open>i\<close> is a \<open>u4\<close>: \<open>i <= reg_final\<close> compares the two
  as \<open>size_t\<close>, and \<open>i++\<close> adds one modulo 16. The loops need not return, so they are
  partial functions: \<open>None\<close> is a loop that runs forever.
\<close>

partial_function (option) load_reg_to_mem_loop ::
  "u4 \<Rightarrow> u4 \<Rightarrow> emulator \<Rightarrow> (error + emulator) option" where
  "load_reg_to_mem_loop i reg_final s =
     (if unat i \<le> unat reg_final
      then case write_at (memory s) (unat (i_register s) + unat i) (gp_registers s i) of
             Inl e \<Rightarrow> Some (Inl e)
           | Inr m \<Rightarrow> load_reg_to_mem_loop (i + 1) reg_final (s\<lparr>memory := m\<rparr>)
      else Some (Inr s))"

declare load_reg_to_mem_loop.simps [code]

definition load_reg_to_mem :: "emulator \<Rightarrow> u4 \<Rightarrow> (error + emulator) option" where
  "load_reg_to_mem s reg_final =
     (case load_reg_to_mem_loop 0 reg_final s of
        None \<Rightarrow> None
      | Some (Inl e) \<Rightarrow> Some (Inl e)
      | Some (Inr s1) \<Rightarrow> Some (Inr (advance s1)))"

partial_function (option) load_mem_to_reg_loop ::
  "u4 \<Rightarrow> u4 \<Rightarrow> emulator \<Rightarrow> (error + emulator) option" where
  "load_mem_to_reg_loop i reg_final s =
     (if unat i \<le> unat reg_final
      then case read_at (memory s) (unat (i_register s) + unat i) of
             Inl e \<Rightarrow> Some (Inl e)
           | Inr v \<Rightarrow> load_mem_to_reg_loop (i + 1) reg_final (set_reg i v s)
      else Some (Inr s))"

declare load_mem_to_reg_loop.simps [code]

definition load_mem_to_reg :: "emulator \<Rightarrow> u4 \<Rightarrow> (error + emulator) option" where
  "load_mem_to_reg s reg_final =
     (if unat reg_final > 15 then Some (Inl InvalidRegister)
      else case load_mem_to_reg_loop 0 reg_final s of
             None \<Rightarrow> None
           | Some (Inl e) \<Rightarrow> Some (Inl e)
           | Some (Inr s1) \<Rightarrow> Some (Inr (advance s1)))"

section \<open>Decode and dispatch\<close>

text \<open>
  \<open>GebLib::get_nibble\<close>: nibbles are numbered from the most significant one. The mask
  is \<open>0xf << num_shifts\<close>, and the result passes through the constructor of \<open>u4\<close>.
\<close>

definition get_nibble :: "u16 \<Rightarrow> nat \<Rightarrow> error + u4" where
  "get_nibble word nibble_i =
     (if nibble_i \<ge> 4 then Inl NibbleIndex
      else let num_shifts = 4 * (3 - nibble_i)
           in Inr (u4_of (unat (drop_bit num_shifts (word AND push_bit num_shifts 0xf)))))"

text \<open>
  The result of \<open>evaluate_instruction\<close>: \<open>None\<close> when the handler never returns,
  \<open>Some (Inl e)\<close> when it throws (or leaves an array), \<open>Some (Inr (b, s))\<close> when it
  returns \<open>b\<close> in state \<open>s\<close>.
\<close>

type_synonym outcome = "(error + bool \<times> emulator) option"

definition returns :: "emulator \<Rightarrow> outcome" where
  "returns s = Some (Inr (False, s))"

definition returns_or_throws :: "error + emulator \<Rightarrow> outcome" where
  "returns_or_throws r = (case r of Inl e \<Rightarrow> Some (Inl e) | Inr s \<Rightarrow> Some (Inr (False, s)))"

definition returns_if_ends :: "(error + emulator) option \<Rightarrow> outcome" where
  "returns_if_ends r = (case r of None \<Rightarrow> None | Some r1 \<Rightarrow> returns_or_throws r1)"

fun with_nibble :: "error + u4 \<Rightarrow> (u4 \<Rightarrow> outcome) \<Rightarrow> outcome" where
  "with_nibble (Inl e) f = Some (Inl e)"
| "with_nibble (Inr x) f = f x"

definition evaluate_instruction :: "environment \<Rightarrow> emulator \<Rightarrow> u16 \<Rightarrow> outcome" where
  "evaluate_instruction env s instruction =
    (if instruction = 0x00e0 then returns (cls s)
     else if instruction = 0x00ee then returns_or_throws (ret s)
     else if instruction AND 0xf000 = 0x0000 then returns (sys s (instruction AND 0x0fff))
     else if instruction AND 0xf000 = 0x1000 then
       (let target_address = instruction AND 0x0fff
        in if target_address = program_counter s
           then Some (Inr (True, jp s target_address))
           else Some (Inr (False, jp s target_address)))
     else if instruction AND 0xf000 = 0x2000 then
       returns_or_throws (call s (instruction AND 0x0fff))
     else if instruction AND 0xf000 = 0x3000 then
       with_nibble (get_nibble instruction 1) (\<lambda>x.
         returns (skip_equal s x (ucast (instruction AND 0x00ff))))
     else if instruction AND 0xf000 = 0x4000 then
       with_nibble (get_nibble instruction 1) (\<lambda>x.
         returns (skip_not_equal s x (ucast (instruction AND 0x00ff))))
     else if instruction AND 0xf00f = 0x5000 then
       with_nibble (get_nibble instruction 1) (\<lambda>x.
       with_nibble (get_nibble instruction 2) (\<lambda>y.
         returns (skip_equal_reg s x y)))
     else if instruction AND 0xf000 = 0x6000 then
       with_nibble (get_nibble instruction 1) (\<lambda>x.
         returns (load s x (ucast (instruction AND 0x00ff))))
     else if instruction AND 0xf000 = 0x7000 then
       with_nibble (get_nibble instruction 1) (\<lambda>x.
         returns (add s x (ucast (instruction AND 0x00ff))))
     else if instruction AND 0xf00f = 0x8000 then
       with_nibble (get_nibble instruction 1) (\<lambda>x.
       with_nibble (get_nibble instruction 2) (\<lambda>y.
         returns (load_reg s x y)))
     else if instruction AND 0xf00f = 0x8001 then
       with_nibble (get_nibble instruction 1) (\<lambda>x.
       with_nibble (get_nibble instruction 2) (\<lambda>y.
         returns (bitwise_or s x y)))
     else if instruction AND 0xf00f = 0x8002 then
       with_nibble (get_nibble instruction 1) (\<lambda>x.
       with_nibble (get_nibble instruction 2) (\<lambda>y.
         returns (bitwise_and s x y)))
     else if instruction AND 0xf00f = 0x8003 then
       with_nibble (get_nibble instruction 1) (\<lambda>x.
       with_nibble (get_nibble instruction 2) (\<lambda>y.
         returns (bitwise_xor s x y)))
     else if instruction AND 0xf00f = 0x8004 then
       with_nibble (get_nibble instruction 1) (\<lambda>x.
       with_nibble (get_nibble instruction 2) (\<lambda>y.
         returns (carry_add_reg s x y)))
     else if instruction AND 0xf00f = 0x8005 then
       with_nibble (get_nibble instruction 1) (\<lambda>x.
       with_nibble (get_nibble instruction 2) (\<lambda>y.
         returns (carry_sub_reg s x y)))
     else if instruction AND 0xf00f = 0x8006 then
       with_nibble (get_nibble instruction 1) (\<lambda>x.
         returns (shift_right s x))
     else if instruction AND 0xf00f = 0x8007 then
       with_nibble (get_nibble instruction 1) (\<lambda>x.
       with_nibble (get_nibble instruction 2) (\<lambda>y.
         returns (subtract_reversed s x y)))
     else if instruction AND 0xf00f = 0x800e then
       with_nibble (get_nibble instruction 1) (\<lambda>x.
         returns (shift_left s x))
     else if instruction AND 0xf00f = 0x9000 then
       with_nibble (get_nibble instruction 1) (\<lambda>x.
       with_nibble (get_nibble instruction 2) (\<lambda>y.
         returns (skip_not_equal_reg s x y)))
     else if instruction AND 0xf000 = 0xa000 then
       returns (load_address s (instruction AND 0x0fff))
     else if instruction AND 0xf000 = 0xb000 then
       returns (jump_reg0 s (instruction AND 0x0fff))
     else if instruction AND 0xf000 = 0xc000 then
       with_nibble (get_nibble instruction 1) (\<lambda>x.
         returns (random_int env s x (ucast (instruction AND 0x00ff))))
     else if instruction AND 0xf000 = 0xd000 then
       with_nibble (get_nibble instruction 1) (\<lambda>x.
       with_nibble (get_nibble instruction 2) (\<lambda>y.
       with_nibble (get_nibble instruction 3) (\<lambda>z.
         returns_or_throws (draw_sprite s x y z))))
     else if instruction AND 0xf0ff = 0xe09e then
       with_nibble (get_nibble instruction 1) (\<lambda>x.
         returns (skip_if_key_press s x))
     else if instruction AND 0xf0ff = 0xf007 then
       with_nibble (get_nibble instruction 1) (\<lambda>x.
         returns (load_from_delay_timer env s x))
     else if instruction AND 0xf0ff = 0xf00a then
       with_nibble (get_nibble instruction 1) (\<lambda>x.
         returns (load_from_next_keypress env s x))
     else if instruction AND 0xf0ff = 0xf015 then
       with_nibble (get_nibble instruction 1) (\<lambda>x.
         returns (set_delay env s x))
     else if instruction AND 0xf0ff = 0xf018 then
       with_nibble (get_nibble instruction 1) (\<lambda>x.
         returns (set_sound env s x))
     else if instruction AND 0xf0ff = 0xf01e then
       with_nibble (get_nibble instruction 1) (\<lambda>x.
         returns (increment_i_reg s x))
     else if instruction AND 0xf0ff = 0xf029 then
       with_nibble (get_nibble instruction 1) (\<lambda>x.
         returns (load_sprite s x))
     else if instruction AND 0xf0ff = 0xf033 then
       with_nibble (get_nibble instruction 1) (\<lambda>x.
         returns_or_throws (load_bcd s x))
     else if instruction AND 0xf0ff = 0xf055 then
       with_nibble (get_nibble instruction 1) (\<lambda>x.
         returns_if_ends (load_reg_to_mem s x))
     else if instruction AND 0xf0ff = 0xf065 then
       with_nibble (get_nibble instruction 1) (\<lambda>x.
         returns_if_ends (load_mem_to_reg s x))
     else Some (Inl (UnknownInstruction instruction)))"

text \<open>
  One pass of the execution loop of \<open>block_run\<close>: the instruction word is
  \<open>(memory[pc] << 8) + memory[pc + 1]\<close>, computed on \<open>int\<close> and passed as \<open>uint16_t\<close>.
\<close>

definition fetch :: "emulator \<Rightarrow> error + u16" where
  "fetch s =
     (case read_at (memory s) (unat (program_counter s)) of
        Inl e \<Rightarrow> Inl e
      | Inr hi \<Rightarrow>
          (case read_at (memory s) (unat (program_counter s) + 1) of
             Inl e \<Rightarrow> Inl e
           | Inr lo \<Rightarrow> Inr (of_nat (unat hi * 256 + unat lo))))"

definition cycle :: "environment \<Rightarrow> emulator \<Rightarrow> outcome" where
  "cycle env s =
     (case fetch s of
        Inl e \<Rightarrow> Some (Inl e)
      | Inr instruction \<Rightarrow> evaluate_instruction env s instruction)"

section \<open>Program loader\<close>

text \<open>
  The parts of the C++ standard library that \<open>load_program\<close> calls. \<open>isspace\<close> and
  \<open>isxdigit\<close> are those of the C locale. \<open>std::string::npos\<close>, the largest
  \<open>size_t\<close>, is \<open>None\<close>. \<open>substr\<close> throws \<open>std::out_of_range\<close> when the
  position is beyond the end.
\<close>

datatype std_exception = invalid_argument | out_of_range

definition isspace :: "char \<Rightarrow> bool" where
  "isspace c \<longleftrightarrow> c \<in> set [CHR 0x20, CHR 0x09, CHR 0x0A, CHR 0x0B, CHR 0x0C, CHR 0x0D]"

definition isxdigit :: "char \<Rightarrow> bool" where
  "isxdigit c \<longleftrightarrow> c \<in> set ''0123456789abcdefABCDEF''"

definition xdigit_value :: "char \<Rightarrow> int" where
  "xdigit_value c =
     (let n = (of_char c :: nat)
      in if n \<le> 0x39 then int n - 0x30
         else if n \<le> 0x46 then int n - 0x41 + 10
         else int n - 0x61 + 10)"

text \<open>
  \<open>std::stoi(str, nullptr, 16)\<close>: leading white space is skipped, then an optional
  sign and an optional \<open>0x\<close> or \<open>0X\<close> are read, then hexadecimal digits as far as
  they go; what follows the digits is ignored. It throws \<open>std::invalid_argument\<close>
  when there is no digit, and \<open>std::out_of_range\<close> when the value is not an \<open>int\<close>.
\<close>

definition has_hex_prefix :: "string \<Rightarrow> bool" where
  "has_hex_prefix str =
     (case str of
        c0 # c1 # c2 # _ \<Rightarrow> c0 = CHR ''0'' \<and> (c1 = CHR ''x'' \<or> c1 = CHR ''X'') \<and> isxdigit c2
      | _ \<Rightarrow> False)"

definition stoi_hex :: "string \<Rightarrow> std_exception + int" where
  "stoi_hex str =
     (let s1 = dropWhile isspace str;
          negative = (case s1 of c # _ \<Rightarrow> c = CHR ''-'' | [] \<Rightarrow> False);
          s2 = (case s1 of c # rest \<Rightarrow> if c = CHR ''-'' \<or> c = CHR ''+'' then rest else s1 | [] \<Rightarrow> s1);
          s3 = (if has_hex_prefix s2 then drop 2 s2 else s2);
          digits = takeWhile isxdigit s3
      in if digits = [] then Inl invalid_argument
         else let magnitude = foldl (\<lambda>acc c. 16 * acc + xdigit_value c) 0 digits;
                  v = (if negative then - magnitude else magnitude)
              in if v < - (2 ^ 31) \<or> 2 ^ 31 - 1 < v then Inl out_of_range else Inr v)"

function find_from :: "string \<Rightarrow> string \<Rightarrow> nat \<Rightarrow> nat option" where
  "find_from str pat pos =
     (if length str < pos + length pat then None
      else if take (length pat) (drop pos str) = pat then Some pos
      else find_from str pat (pos + 1))"
  by pat_completeness auto
termination
  by (relation "measure (\<lambda>(str, pat, pos). length str + 1 - pos)") auto

declare find_from.simps [simp del]

definition find_first_not_of :: "string \<Rightarrow> string \<Rightarrow> nat option" where
  "find_first_not_of str chars =
     (let k = length (takeWhile (\<lambda>c. c \<in> set chars) str)
      in if k < length str then Some k else None)"

definition substr :: "string \<Rightarrow> nat \<Rightarrow> nat \<Rightarrow> std_exception + string" where
  "substr str pos n = (if length str < pos then Inl out_of_range else Inr (take n (drop pos str)))"

definition starts_with :: "string \<Rightarrow> string \<Rightarrow> bool" where
  "starts_with str pre \<longleftrightarrow> take (length pre) str = pre"

text \<open>
  The line splitting of \<open>load_program\<close>: the comparisons of \<open>cr\<close> and \<open>crlf\<close>
  with each other and with \<open>npos\<close>, case by case. A line keeps its line break.
\<close>

definition next_line_pos :: "string \<Rightarrow> nat \<Rightarrow> nat" where
  "next_line_pos program_text current_pos =
     (case (find_from program_text [CHR 0x0A] current_pos,
            find_from program_text [CHR 0x0D, CHR 0x0A] current_pos) of
        (None, None) \<Rightarrow> length program_text
      | (Some cr, None) \<Rightarrow> cr + 1
      | (Some cr, Some crlf) \<Rightarrow> if cr < crlf then cr + 1 else crlf + 2
      | (None, Some crlf) \<Rightarrow> crlf + 2)"

text \<open>
  The body of the loop for one line: the line is skipped (\<open>continue\<close>), yields a
  word, makes \<open>load_program\<close> return false (an exception caught inside the
  \<open>try\<close>), or throws outside the \<open>try\<close>.
\<close>

datatype line_result = Skipped | Parsed u16 | Rejected | Escaped std_exception

definition parse_line :: "string \<Rightarrow> line_result" where
  "parse_line line =
     (if list_all isspace line then Skipped
      else case find_first_not_of line [CHR 0x20, CHR 0x09, CHR 0x0D, CHR 0x0A, CHR 0x0B, CHR 0x0C] of
             None \<Rightarrow> Escaped out_of_range
           | Some word_start \<Rightarrow>
               (case substr line word_start (length line - word_start) of
                  Inl e \<Rightarrow> Escaped e
                | Inr rest \<Rightarrow>
                    if \<not> starts_with rest ''0x'' then Skipped
                    else (case substr line (word_start + 2) (length line - (word_start + 2)) of
                            Inl e \<Rightarrow> Rejected
                          | Inr starts_with_bytes \<Rightarrow>
                              (case stoi_hex starts_with_bytes of
                                 Inl e \<Rightarrow> Rejected
                               | Inr v \<Rightarrow> Parsed (of_int v)))))"

function load_program_loop :: "string \<Rightarrow> nat \<Rightarrow> u8 list \<Rightarrow> std_exception + u8 list option" where
  "load_program_loop program_text current_pos bytes =
     (if current_pos < length program_text
      then let next_pos = next_line_pos program_text current_pos
           in case substr program_text current_pos (next_pos - current_pos) of
                Inl e \<Rightarrow> Inl e
              | Inr line \<Rightarrow>
                  (case parse_line line of
                     Skipped \<Rightarrow> load_program_loop program_text next_pos bytes
                   | Parsed word \<Rightarrow>
                       load_program_loop program_text next_pos
                         (bytes @ [ucast (drop_bit 8 (word AND 0xff00)), ucast (word AND 0x00ff)])
                   | Rejected \<Rightarrow> Inr None
                   | Escaped e \<Rightarrow> Inl e)
      else Inr (Some bytes))"
  by pat_completeness auto
termination
proof (relation "measure (\<lambda>(program_text, current_pos, bytes). length program_text - current_pos)")
  have ge: "find_from str pat pos = Some r \<Longrightarrow> pos \<le> r" for str pat pos r
  proof (induction str pat pos rule: find_from.induct)
    case (1 str pat pos)
    then show ?case
      by (subst (asm) (2) find_from.simps) (auto split: if_splits)
  qed
  have next_pos: "current_pos < next_line_pos program_text current_pos"
    if "current_pos < length program_text" for program_text current_pos
    using that ge[of program_text "[CHR 0x0A]" current_pos]
      ge[of program_text "[CHR 0x0D, CHR 0x0A]" current_pos]
    by (auto simp add: next_line_pos_def split: option.splits)
  show "wf (measure (\<lambda>(program_text, current_pos, bytes). length program_text - current_pos))"
    by simp
  show "((program_text, next_pos, bytes), program_text, current_pos, bytes)
        \<in> measure (\<lambda>(program_text, current_pos, bytes). length program_text - current_pos)"
    if "current_pos < length program_text" "next_pos = next_line_pos program_text current_pos"
    for program_text current_pos next_pos and bytes :: "u8 list"
    using next_pos[OF that(1)] that by simp
  show "((program_text, next_pos, bytes'), program_text, current_pos, bytes)
        \<in> measure (\<lambda>(program_text, current_pos, bytes). length program_text - current_pos)"
    if "current_pos < length program_text" "next_pos = next_line_pos program_text current_pos"
    for program_text current_pos next_pos and bytes bytes' :: "u8 list"
    using next_pos[OF that(1)] that by simp
qed

declare load_program_loop.simps [simp del]

definition load_program_bytes :: "emulator \<Rightarrow> u8 list \<Rightarrow> bool \<times> emulator" where
  "load_program_bytes s bytes =
     (if length bytes > length (memory s) - PROGRAM_STARTING_ADDRESS then (False, s)
      else (True,
            s\<lparr>memory := fold (\<lambda>i m. m[PROGRAM_STARTING_ADDRESS + i := bytes ! i])
                            [0..<length bytes] (memory s)\<rparr>))"

definition load_program :: "emulator \<Rightarrow> string \<Rightarrow> std_exception + bool \<times> emulator" where
  "load_program s program_text =
     (case load_program_loop program_text 0 [] of
        Inl e \<Rightarrow> Inl e
      | Inr None \<Rightarrow> Inr (False, s)
      | Inr (Some bytes) \<Rightarrow> Inr (load_program_bytes s bytes))"

text \<open>The lines the loop of \<open>load_program\<close> visits, from a position on.\<close>

function program_lines :: "string \<Rightarrow> nat \<Rightarrow> string list" where
  "program_lines program_text current_pos =
     (if current_pos < length program_text
      then take (next_line_pos program_text current_pos - current_pos) (drop current_pos program_text)
             # program_lines program_text (next_line_pos program_text current_pos)
      else [])"
  by pat_completeness auto
termination
proof (relation "measure (\<lambda>(program_text, current_pos). length program_text - current_pos)")
  have ge: "find_from str pat pos = Some r \<Longrightarrow> pos \<le> r" for str pat pos r
  proof (induction str pat pos rule: find_from.induct)
    case (1 str pat pos)
    then show ?case
      by (subst (asm) (2) find_from.simps) (auto split: if_splits)
  qed
  show "wf (measure (\<lambda>(program_text, current_pos). length program_text - current_pos))"
    by simp
  show "((program_text, next_line_pos program_text current_pos), program_text, current_pos)
        \<in> measure (\<lambda>(program_text, current_pos). length program_text - current_pos)"
    if "current_pos < length program_text" for program_text current_pos
    using that ge[of program_text "[CHR 0x0A]" current_pos]
      ge[of program_text "[CHR 0x0D, CHR 0x0A]" current_pos]
    by (auto simp add: next_line_pos_def split: option.splits)
qed

declare program_lines.simps [simp del]

section \<open>Key channel and input polling\<close>

text \<open>
  \<open>ChannelCoordinator<Key>\<close> of \<open>geblib.h\<close>. Both methods hold \<open>channel_lock\<close> for
  all they do, and \<open>wait\<close> gives the lock up only while the message is empty: the
  embedding has one function for each stretch of code that runs under the lock without
  a break. \<open>request\<close> is two of them: \<open>request_register\<close>, from taking the lock to
  the wait, and \<open>request_receive\<close>, from the wake-up to the return, which is \<open>None\<close>
  as long as the predicate of the wait is false and the caller stays blocked. That the
  stretches of the two threads run one at a time is what the mutex gives; it is taken
  for granted here.
\<close>

record ChannelCoordinator =
  is_request_pending :: bool
  message :: "Key option"

definition request_register :: "ChannelCoordinator \<Rightarrow> ChannelCoordinator" where
  "request_register c = c\<lparr>is_request_pending := True\<rparr>"

definition request_receive :: "ChannelCoordinator \<Rightarrow> (Key \<times> ChannelCoordinator) option" where
  "request_receive c =
     (case message c of
        None \<Rightarrow> None
      | Some response \<Rightarrow> Some (response, c\<lparr>message := None\<rparr>))"

definition send_if_requested :: "ChannelCoordinator \<Rightarrow> Key \<Rightarrow> ChannelCoordinator" where
  "send_if_requested c data =
     (if is_request_pending c
      then c\<lparr>message := Some data, is_request_pending := False\<rparr>
      else c)"

text \<open>
  The part of an \<open>SDL_Event\<close> that \<open>poll_events\<close> reads, and the four key codes of
  SDL it compares with (the codes of the characters 0, 9, a and f).
\<close>

datatype SDL_EventType = SDL_EVENT_QUIT | SDL_EVENT_KEY_DOWN | SDL_EVENT_KEY_UP | SDL_EVENT_OTHER

record SDL_Event =
  event_type :: SDL_EventType
  key_code :: nat
  key_repeat :: bool

definition SDLK_0 :: nat where "SDLK_0 = 0x30"
definition SDLK_9 :: nat where "SDLK_9 = 0x39"
definition SDLK_A :: nat where "SDLK_A = 0x61"
definition SDLK_F :: nat where "SDLK_F = 0x66"

text \<open>
  The members of \<open>class Keyboard\<close>: the pressed vector \<open>keyboard_state\<close> (the record
  of the emulator has it as a field of its own) and the channel. \<open>poll_event\<close> is the
  body of the loop of \<open>poll_events\<close> for one event; \<open>None\<close> is \<open>exit(1)\<close>.
\<close>

record Keyboard =
  keyboard_state' :: "Key \<Rightarrow> bool"
  key_channel :: ChannelCoordinator

definition key_index :: "nat \<Rightarrow> nat option" where
  "key_index key =
     (if key \<ge> SDLK_0 \<and> key \<le> SDLK_9 then Some (0x0 + (key - SDLK_0))
      else if key \<ge> SDLK_A \<and> key \<le> SDLK_F then Some (0xa + (key - SDLK_A))
      else None)"

definition poll_event :: "SDL_Event \<Rightarrow> Keyboard \<Rightarrow> Keyboard option" where
  "poll_event event kb =
     (if event_type event = SDL_EVENT_QUIT then None
      else if (event_type event = SDL_EVENT_KEY_DOWN \<or> event_type event = SDL_EVENT_KEY_UP)
              \<and> \<not> key_repeat event
      then (case key_index (key_code event) of
              None \<Rightarrow> Some kb
            | Some key_i \<Rightarrow>
                (let kb1 = (if event_type event = SDL_EVENT_KEY_DOWN
                            then kb\<lparr>key_channel := send_if_requested (key_channel kb) (u4_of key_i)\<rparr>
                            else kb)
                 in Some (kb1\<lparr>keyboard_state' :=
                            (keyboard_state' kb1)(u4_of key_i := (event_type event = SDL_EVENT_KEY_DOWN))\<rparr>)))
      else Some kb)"

section \<open>States and inputs for examples\<close>

text \<open>A state to run examples from: everything zero, the program counter at 0x200.\<close>

definition blank_emulator :: emulator where
  "blank_emulator =
     \<lparr>display_buffer = replicate (SCREEN_WIDTH * SCREEN_HEIGHT) False,
      keyboard_state = (\<lambda>_. False),
      sound_timer = timer_set 0 0,
      delay_timer = timer_set 0 0,
      memory = replicate 4096 0,
      program_counter = 0x200,
      stack_frames = replicate 16 0,
      stack_pointer = 0,
      gp_registers = (\<lambda>_. 0),
      i_register = 0\<rparr>"

definition poke :: "nat \<Rightarrow> u8 list \<Rightarrow> emulator \<Rightarrow> emulator" where
  "poke a bs s = s\<lparr>memory := take a (memory s) @ bs @ drop (a + length bs) (memory s)\<rparr>"

section \<open>What a draw touches\<close>

text \<open>
  Notions used to state what a draw does: the buffer index of the pixel that row
  \<open>row_i\<close>, bit \<open>bit_i\<close> of a sprite lands on, whether that bit of the row is set, the
  cells a sprite flips (from a given row or bit on), and whether one of them is on in a
  buffer.
\<close>

definition pixel_index :: "u8 \<Rightarrow> u8 \<Rightarrow> nat \<Rightarrow> nat \<Rightarrow> nat" where
  "pixel_index ul_xpos ul_ypos row_i bit_i =
     (unat ul_xpos + bit_i) mod SCREEN_WIDTH + ((unat ul_ypos + row_i) mod SCREEN_HEIGHT) * SCREEN_WIDTH"

definition sprite_bit :: "u8 \<Rightarrow> nat \<Rightarrow> bool" where
  "sprite_bit row bit_i \<longleftrightarrow> row AND drop_bit bit_i 0x80 \<noteq> 0"

definition row_hits :: "u8 \<Rightarrow> u8 \<Rightarrow> u8 \<Rightarrow> nat \<Rightarrow> nat \<Rightarrow> nat \<Rightarrow> bool" where
  "row_hits ul_xpos ul_ypos row row_i bit_0 p \<longleftrightarrow>
     (\<exists>bit_i. bit_0 \<le> bit_i \<and> bit_i < SPRITE_WIDTH
        \<and> p = pixel_index ul_xpos ul_ypos row_i bit_i \<and> sprite_bit row bit_i)"

definition row_collides :: "u8 \<Rightarrow> u8 \<Rightarrow> u8 \<Rightarrow> nat \<Rightarrow> nat \<Rightarrow> bool list \<Rightarrow> bool" where
  "row_collides ul_xpos ul_ypos row row_i bit_0 buf \<longleftrightarrow>
     (\<exists>bit_i. bit_0 \<le> bit_i \<and> bit_i < SPRITE_WIDTH
        \<and> buf ! pixel_index ul_xpos ul_ypos row_i bit_i \<and> sprite_bit row bit_i)"

definition sprite_hits :: "u8 \<Rightarrow> u8 \<Rightarrow> u8 list \<Rightarrow> nat \<Rightarrow> nat \<Rightarrow> nat \<Rightarrow> nat \<Rightarrow> bool" where
  "sprite_hits ul_xpos ul_ypos mem i n row_0 p \<longleftrightarrow>
     (\<exists>row_i. row_0 \<le> row_i \<and> row_i < n
        \<and> row_hits ul_xpos ul_ypos (mem ! (i + row_i)) row_i 0 p)"

definition sprite_collides ::
  "u8 \<Rightarrow> u8 \<Rightarrow> u8 list \<Rightarrow> nat \<Rightarrow> nat \<Rightarrow> nat \<Rightarrow> bool list \<Rightarrow> bool" where
  "sprite_collides ul_xpos ul_ypos mem i n row_0 buf \<longleftrightarrow>
     (\<exists>row_i. row_0 \<le> row_i \<and> row_i < n
        \<and> row_collides ul_xpos ul_ypos (mem ! (i + row_i)) row_i 0 buf)"

section \<open>A draw that reads past the end of the memory\<close>

text \<open>
  \<open>memory[i_register + row_i]\<close> is an unchecked index into a \<open>std::array\<close>. In the
  class the member declared right after \<open>memory\<close> is \<open>uint16_t program_counter\<close>. Where
  the object is laid out in declaration order, without padding between the two and with
  the least significant byte first, the indices 4096 and 4097 reach the two bytes of the
  program counter. \<open>read_laid_out\<close> is the read on that layout; it says nothing of the
  indices beyond. \<open>draw_rows_laid_out\<close> and \<open>draw_sprite_laid_out\<close> are \<open>draw_rows\<close> and
  \<open>draw_sprite\<close> with this read in the place of \<open>read_at\<close>.
\<close>

definition read_laid_out :: "emulator \<Rightarrow> nat \<Rightarrow> error + u8" where
  "read_laid_out s a =
     (if a < length (memory s) then Inr (memory s ! a)
      else if a = length (memory s) then Inr (ucast (program_counter s))
      else if a = length (memory s) + 1 then Inr (ucast (drop_bit 8 (program_counter s)))
      else Inl OutOfRange)"

function draw_rows_laid_out :: "u8 \<Rightarrow> u8 \<Rightarrow> nat \<Rightarrow> nat \<Rightarrow> emulator \<Rightarrow> error + emulator" where
  "draw_rows_laid_out ul_xpos ul_ypos n row_i s =
     (if row_i < n
      then case read_laid_out s (unat (i_register s) + row_i) of
             Inl e \<Rightarrow> Inl e
           | Inr row \<Rightarrow>
               draw_rows_laid_out ul_xpos ul_ypos n (row_i + 1)
                 (draw_bits ul_xpos ul_ypos row row_i 0 s)
      else Inr s)"
  by pat_completeness auto
termination
  by (relation "measure (\<lambda>(ul_xpos, ul_ypos, n, row_i, s). n - row_i)") auto

declare draw_rows_laid_out.simps [simp del]

definition draw_sprite_laid_out :: "emulator \<Rightarrow> u4 \<Rightarrow> u4 \<Rightarrow> u4 \<Rightarrow> error + emulator" where
  "draw_sprite_laid_out s reg_x reg_y v =
     (let s0 = set_reg 0xf 0 s;
          ul_xpos = gp_registers s0 reg_x;
          ul_ypos = gp_registers s0 reg_y
      in case draw_rows_laid_out ul_xpos ul_ypos (unat v) 0 s0 of
           Inl e \<Rightarrow> Inl e
         | Inr s1 \<Rightarrow> Inr (advance s1))"

section \<open>More states and inputs for examples\<close>

text \<open>A state with the sprite of the digit 0 at 0x100 and I pointing at it.\<close>

definition sprite_emulator :: emulator where
  "sprite_emulator =
     (poke 0x100 [0xf0, 0x90, 0x90, 0x90, 0xf0] blank_emulator)\<lparr>i_register := 0x100\<rparr>"

definition quiet_environment :: environment where
  "quiet_environment = \<lparr>random_u8 = 0, clock_now = 0, next_keypress = 0\<rparr>"

text \<open>A state whose I points at the first byte after the memory.\<close>

definition past_end_emulator :: emulator where
  "past_end_emulator = blank_emulator\<lparr>i_register := 0x1000\<rparr>"

text \<open>A key-down event that is not a repeat, and a keyboard with nothing pressed or pending.\<close>

definition key_down :: "nat \<Rightarrow> SDL_Event" where
  "key_down key = \<lparr>event_type = SDL_EVENT_KEY_DOWN, key_code = key, key_repeat = False\<rparr>"

definition idle_keyboard :: Keyboard where
  "idle_keyboard =
     \<lparr>keyboard_state' = (\<lambda>_. False),
      key_channel = \<lparr>is_request_pending = False, message = None\<rparr>\<rparr>"

text \<open>A program text of three lines; \<open>std::stoi\<close> finds no digit in the second.\<close>

definition rejected_program :: string where
  "rejected_program = ''0x00e0'' @ [CHR 0x0A] @ '' 0xzz12'' @ [CHR 0x0D, CHR 0x0A] @ ''0xa100''"

declare draw_bits.simps [simp del] draw_rows.simps [simp del]

section \<open>Decoding: which branch an instruction word takes\<close>

lemma mask_f000_of_f0ff: "(w :: u16) AND 0xf0ff = c \<Longrightarrow> w AND 0xf000 = c AND 0xf000"
proof -
  assume h: "w AND 0xf0ff = c"
  have "w AND 0xf000 = w AND (0xf0ff AND 0xf000)" by simp
  also have "\<dots> = (w AND 0xf0ff) AND 0xf000" by (simp only: and.assoc)
  finally show ?thesis using h by simp
qed

lemma mask_f00f_of_f0ff: "(w :: u16) AND 0xf0ff = c \<Longrightarrow> w AND 0xf00f = c AND 0xf00f"
proof -
  assume h: "w AND 0xf0ff = c"
  have "w AND 0xf00f = w AND (0xf0ff AND 0xf00f)" by simp
  also have "\<dots> = (w AND 0xf0ff) AND 0xf00f" by (simp only: and.assoc)
  finally show ?thesis using h by simp
qed

lemma mask_f000_of_f00f: "(w :: u16) AND 0xf00f = c \<Longrightarrow> w AND 0xf000 = c AND 0xf000"
proof -
  assume h: "w AND 0xf00f = c"
  have "w AND 0xf000 = w AND (0xf00f AND 0xf000)" by simp
  also have "\<dots> = (w AND 0xf00f) AND 0xf000" by (simp only: and.assoc)
  finally show ?thesis using h by simp
qed

text \<open>A \<open>u4\<close> is at most 15, so \<open>i <= reg_final\<close> holds for every \<open>i\<close> when \<open>reg_final\<close> is 15.\<close>

lemma unat_u4_le: "unat (i :: u4) \<le> 15"
proof -
  have "unat i < 2 ^ LENGTH(4)" by (rule unsigned_less)
  then show ?thesis by simp
qed

section \<open>Skip if key not pressed (ExA1)\<close>

text \<open>
  Claim C1. The claim: an instruction word ExA1 is dispatched to the skip-if-not-pressed
  handler, and the program counter advances by 4 or by 2 according to the key selected
  by Vx modulo 16. The handler \<open>skip_if_not_key_press\<close> exists, but the chain of
  \<open>evaluate_instruction\<close> has no branch for the pattern \<open>0xe0a1\<close>: for every word
  ExA1 and every state in which the fetch succeeds, the cycle ends in the final
  \<open>else\<close>, the unknown-instruction error, and the handler is not run.
\<close>

theorem exa1_is_unmatched:
  assumes "fetch s = Inr instruction"
    and "instruction AND 0xf0ff = 0xe0a1"
  shows "cycle env s = Some (Inl (UnknownInstruction instruction))
         \<and> cycle env s \<noteq> returns (skip_if_not_key_press s x)"
proof -
  have a: "instruction AND 0xf000 = 0xe000"
    using mask_f000_of_f0ff[OF assms(2)] by simp
  have b: "instruction AND 0xf00f = 0xe001"
    using mask_f00f_of_f0ff[OF assms(2)] by simp
  have c: "instruction \<noteq> 0x00e0" "instruction \<noteq> 0x00ee"
    using assms(2) by auto
  have "evaluate_instruction env s instruction = Some (Inl (UnknownInstruction instruction))"
    by (simp add: evaluate_instruction_def a b c assms(2))
  then show ?thesis
    by (simp add: cycle_def assms(1) returns_def)
qed

theorem exa1_is_unmatched_witness:
  "fetch (poke 0x200 [0xe3, 0xa1] blank_emulator) = Inr 0xe3a1
   \<and> (0xe3a1 :: u16) AND 0xf0ff = 0xe0a1
   \<and> cycle quiet_environment (poke 0x200 [0xe3, 0xa1] blank_emulator)
       = Some (Inl (UnknownInstruction 0xe3a1))"
proof -
  have f: "fetch (poke 0x200 [0xe3, 0xa1] blank_emulator) = Inr 0xe3a1"
    by (simp add: fetch_def read_at_def poke_def blank_emulator_def nth_append)
  have m: "(0xe3a1 :: u16) AND 0xf0ff = 0xe0a1" by simp
  from exa1_is_unmatched[OF f m, of quiet_environment] f m show ?thesis by simp
qed

section \<open>Arithmetic with a flag\<close>

text \<open>
  Claim C2. The claim: 8xy4 leaves (a + b) mod 256 in the destination and sets VF to 1
  exactly when a + b > 255. The source adds first and then computes the flag from the
  destination as it is after the addition. With V0 = 0xff and V1 = 0x01 the instruction
  0x8014 leaves 0 in V0 and 0 in VF, although 0xff + 0x01 exceeds 255.
\<close>

theorem carry_add_reg_flag_lost:
  "evaluate_instruction quiet_environment (set_reg 0 0xff (set_reg 1 0x01 blank_emulator)) 0x8014
     = returns (carry_add_reg (set_reg 0 0xff (set_reg 1 0x01 blank_emulator)) 0 1)
   \<and> gp_registers (carry_add_reg (set_reg 0 0xff (set_reg 1 0x01 blank_emulator)) 0 1) 0 = 0
   \<and> gp_registers (carry_add_reg (set_reg 0 0xff (set_reg 1 0x01 blank_emulator)) 0 1) 0xf = 0
   \<and> unat (0xff :: u8) + unat (0x01 :: u8) > 255"
  by (simp add: evaluate_instruction_def get_nibble_def u4_of_def carry_add_reg_def
      set_reg_def advance_def blank_emulator_def Let_def)

text \<open>
  Claim C3. The claim: 8x_6 leaves v >> 1 in Vx and sets VF to v AND 1, the bit shifted
  out. The source shifts first and then takes the low bit of the shifted register, which
  is bit 1 of v. With V0 = 0x01 the instruction 0x8006 leaves 0 in V0 and 0 in VF,
  although the bit shifted out is 1.
\<close>

theorem shift_right_flag_lost:
  "evaluate_instruction quiet_environment (set_reg 0 0x01 blank_emulator) 0x8006
     = returns (shift_right (set_reg 0 0x01 blank_emulator) 0)
   \<and> gp_registers (shift_right (set_reg 0 0x01 blank_emulator) 0) 0 = 0
   \<and> gp_registers (shift_right (set_reg 0 0x01 blank_emulator) 0) 0xf = 0
   \<and> (0x01 :: u8) AND 1 = 1"
  by (simp add: evaluate_instruction_def get_nibble_def u4_of_def shift_right_def
      set_reg_def advance_def blank_emulator_def Let_def)

text \<open>
  Claim C4, as stated: for all registers x and y, 8xy5 sets VF to 1 exactly when
  Vx \<ge> Vy and leaves (Vx - Vy) mod 256 in Vx. The flag is written before the
  subtraction, so the claim fails when VF is an operand. With V0 = 5 and VF = 3 the
  instruction 0x80f5 leaves 4 in V0, not 2; with VF = 5 and V1 = 3 the instruction
  0x8f15 leaves 254 in VF, not 1.
\<close>

theorem carry_sub_reg_vf_operand:
  "evaluate_instruction quiet_environment (set_reg 0 5 (set_reg 0xf 3 blank_emulator)) 0x80f5
     = returns (carry_sub_reg (set_reg 0 5 (set_reg 0xf 3 blank_emulator)) 0 0xf)
   \<and> gp_registers (carry_sub_reg (set_reg 0 5 (set_reg 0xf 3 blank_emulator)) 0 0xf) 0 = 4
   \<and> (5 :: u8) - 3 \<noteq> 4
   \<and> evaluate_instruction quiet_environment (set_reg 0xf 5 (set_reg 1 3 blank_emulator)) 0x8f15
     = returns (carry_sub_reg (set_reg 0xf 5 (set_reg 1 3 blank_emulator)) 0xf 1)
   \<and> gp_registers (carry_sub_reg (set_reg 0xf 5 (set_reg 1 3 blank_emulator)) 0xf 1) 0xf = 254
   \<and> (3 :: u8) \<le> 5"
  by (simp add: evaluate_instruction_def get_nibble_def u4_of_def carry_sub_reg_def
      set_reg_def advance_def blank_emulator_def Let_def)

text \<open>
  Claim C4, amended: for all registers x and y other than VF, 8xy5 sets VF to 1
  exactly when Vx \<ge> Vy (1 for equal operands) and leaves (Vx - Vy) mod 256 in Vx
  (0 for equal operands), and the program counter advances by 2.
\<close>

theorem carry_sub_reg_flag:
  assumes m: "instruction AND 0xf00f = 0x8005"
    and x: "get_nibble instruction 1 = Inr x"
    and y: "get_nibble instruction 2 = Inr y"
    and nf: "x \<noteq> 0xf" "y \<noteq> 0xf"
  shows "\<exists>s'. evaluate_instruction env s instruction = Some (Inr (False, s'))
     \<and> gp_registers s' 0xf = (if gp_registers s x \<ge> gp_registers s y then 1 else 0)
     \<and> gp_registers s' x = gp_registers s x - gp_registers s y
     \<and> uint (gp_registers s' x) = (uint (gp_registers s x) - uint (gp_registers s y)) mod 256
     \<and> (gp_registers s x = gp_registers s y \<longrightarrow> gp_registers s' 0xf = 1 \<and> gp_registers s' x = 0)
     \<and> program_counter s' = program_counter s + 2"
proof -
  have a: "instruction AND 0xf000 = 0x8000"
    using mask_f000_of_f00f[OF m] by simp
  have c: "instruction \<noteq> 0x00e0" "instruction \<noteq> 0x00ee"
    using m by auto
  have e: "evaluate_instruction env s instruction = returns (carry_sub_reg s x y)"
    using x y by (simp add: evaluate_instruction_def a c m)
  show ?thesis
    using nf
    by (auto simp add: e returns_def carry_sub_reg_def set_reg_def advance_def Let_def
        uint_word_ariths)
qed

theorem carry_sub_reg_flag_witness:
  "(0x8125 :: u16) AND 0xf00f = 0x8005
   \<and> get_nibble 0x8125 1 = Inr 1 \<and> get_nibble 0x8125 2 = Inr 2
   \<and> (1 :: u4) \<noteq> 0xf \<and> (2 :: u4) \<noteq> 0xf
   \<and> (\<exists>s'. evaluate_instruction quiet_environment (set_reg 1 7 (set_reg 2 7 blank_emulator)) 0x8125
              = Some (Inr (False, s'))
          \<and> gp_registers s' 0xf = 1 \<and> gp_registers s' 1 = 0
          \<and> program_counter s' = 0x202)"
proof -
  have m: "(0x8125 :: u16) AND 0xf00f = 0x8005" by simp
  have x: "get_nibble 0x8125 1 = Inr 1" by (simp add: get_nibble_def u4_of_def)
  have y: "get_nibble 0x8125 2 = Inr 2" by (simp add: get_nibble_def u4_of_def)
  have nf: "(1 :: u4) \<noteq> 0xf" "(2 :: u4) \<noteq> 0xf" by simp_all
  from carry_sub_reg_flag[OF m x y nf, of quiet_environment "set_reg 1 7 (set_reg 2 7 blank_emulator)"]
  obtain s' where
    "evaluate_instruction quiet_environment (set_reg 1 7 (set_reg 2 7 blank_emulator)) 0x8125
       = Some (Inr (False, s'))"
    "gp_registers s' 0xf = 1" "gp_registers s' 1 = 0" "program_counter s' = 0x202"
    by (auto simp add: set_reg_def blank_emulator_def)
  with m x y nf show ?thesis by blast
qed

section \<open>Call (2nnn)\<close>

text \<open>
  Claim C6, as stated: a call fails exactly when the stack holds 16 return addresses or
  the 12-bit target lies outside the 4096-byte memory. The guard of the source is
  \<open>target_address >= memory.size() - 1\<close>: with an empty stack the call to 0xfff, an
  address inside the memory, fails.
\<close>

theorem call_rejects_last_address:
  "evaluate_instruction quiet_environment blank_emulator 0x2fff = Some (Inl CallOutsideMemory)
   \<and> unat (stack_pointer blank_emulator) < 16
   \<and> unat ((0x2fff :: u16) AND 0x0fff) < 4096"
  by (simp add: evaluate_instruction_def returns_or_throws_def call_def blank_emulator_def)

text \<open>
  Claim C6, amended: a call fails exactly when the stack pointer exceeds 15 (the stack
  holds 16 return addresses) or the target is 4095 or more, so that the two-byte
  instruction at the target would not lie inside the memory. Otherwise it writes PC + 2
  (modulo 65536) into the slot the stack pointer names, increments the stack pointer and
  sets PC to the target; slot 0 is written only when the stack is empty.
\<close>

theorem call_guards:
  assumes wf: "wf_emulator s" and m: "instruction AND 0xf000 = 0x2000"
  shows "evaluate_instruction env s instruction =
     (if unat (stack_pointer s) > 15 then Some (Inl CallStackFull)
      else if unat (instruction AND 0x0fff) \<ge> 4095 then Some (Inl CallOutsideMemory)
      else Some (Inr (False,
             s\<lparr>stack_frames := (stack_frames s)[unat (stack_pointer s) := program_counter s + 2],
               stack_pointer := stack_pointer s + 1,
               program_counter := instruction AND 0x0fff\<rparr>)))
   \<and> ((\<exists>e. evaluate_instruction env s instruction = Some (Inl e))
        \<longleftrightarrow> unat (stack_pointer s) > 15 \<or> unat (instruction AND 0x0fff) \<ge> 4095)
   \<and> (stack_pointer s \<noteq> 0 \<longrightarrow>
        (stack_frames s)[unat (stack_pointer s) := program_counter s + 2] ! 0 = stack_frames s ! 0)"
proof -
  have c: "instruction \<noteq> 0x00e0" "instruction \<noteq> 0x00ee" "instruction AND 0xf000 \<noteq> 0"
    "instruction AND 0xf000 \<noteq> 0x1000"
    using m by auto
  have e: "evaluate_instruction env s instruction = returns_or_throws (call s (instruction AND 0x0fff))"
    by (simp add: evaluate_instruction_def c m)
  have len: "length (memory s) = 4096" "length (stack_frames s) = 16"
    using wf by (simp_all add: wf_emulator_def)
  have sp0: "stack_pointer s \<noteq> 0 \<Longrightarrow> unat (stack_pointer s) \<noteq> 0"
    by (simp add: unat_eq_0)
  show ?thesis
    using sp0
    by (auto simp add: e returns_or_throws_def call_def write_at_def len)
qed

theorem call_guards_witness:
  "wf_emulator blank_emulator \<and> (0x2300 :: u16) AND 0xf000 = 0x2000
   \<and> evaluate_instruction quiet_environment blank_emulator 0x2300 =
     Some (Inr (False, blank_emulator\<lparr>stack_frames := (replicate 16 0)[0 := 0x202],
               stack_pointer := 1, program_counter := 0x300\<rparr>))"
proof -
  have wf: "wf_emulator blank_emulator"
    by (simp add: wf_emulator_def blank_emulator_def SCREEN_WIDTH_def SCREEN_HEIGHT_def)
  have m: "(0x2300 :: u16) AND 0xf000 = 0x2000" by simp
  from call_guards[OF wf m, of quiet_environment] wf m show ?thesis
    by (simp add: blank_emulator_def)
qed

section \<open>Bulk transfer between registers and memory (Fx55, Fx65)\<close>

lemma load_reg_to_mem_loop_15:
  assumes "load_reg_to_mem_loop i reg_final s = Some r"
  shows "\<not> (reg_final = 0xf \<and> unat (i_register s) + 15 < length (memory s))"
proof (rule load_reg_to_mem_loop.raw_induct
    [where P = "\<lambda>i reg_final s r. \<not> (reg_final = 0xf \<and> unat (i_register s) + 15 < length (memory s))",
      OF _ assms])
  fix loop :: "u4 \<Rightarrow> u4 \<Rightarrow> emulator \<Rightarrow> (error + emulator) option"
  fix i reg_final s r
  assume ih: "\<And>i reg_final s r. loop i reg_final s = Some r \<Longrightarrow>
    \<not> (reg_final = 0xf \<and> unat (i_register s) + 15 < length (memory s))"
  assume body: "(if unat i \<le> unat reg_final
      then case write_at (memory s) (unat (i_register s) + unat i) (gp_registers s i) of
             Inl e \<Rightarrow> Some (Inl e)
           | Inr m \<Rightarrow> loop (i + 1) reg_final (s\<lparr>memory := m\<rparr>)
      else Some (Inr s)) = Some r"
  show "\<not> (reg_final = 0xf \<and> unat (i_register s) + 15 < length (memory s))"
  proof
    assume h: "reg_final = 0xf \<and> unat (i_register s) + 15 < length (memory s)"
    let ?a = "unat (i_register s) + unat i"
    have le: "unat i \<le> 15" by (rule unat_u4_le)
    have inr: "?a < length (memory s)" using h le by simp
    from body h le inr
    have "loop (i + 1) reg_final (s\<lparr>memory := (memory s)[?a := gp_registers s i]\<rparr>) = Some r"
      by (simp add: write_at_def)
    from ih[OF this] h show False by simp
  qed
qed

lemma load_mem_to_reg_loop_15:
  assumes "load_mem_to_reg_loop i reg_final s = Some r"
  shows "\<not> (reg_final = 0xf \<and> unat (i_register s) + 15 < length (memory s))"
proof (rule load_mem_to_reg_loop.raw_induct
    [where P = "\<lambda>i reg_final s r. \<not> (reg_final = 0xf \<and> unat (i_register s) + 15 < length (memory s))",
      OF _ assms])
  fix loop :: "u4 \<Rightarrow> u4 \<Rightarrow> emulator \<Rightarrow> (error + emulator) option"
  fix i reg_final s r
  assume ih: "\<And>i reg_final s r. loop i reg_final s = Some r \<Longrightarrow>
    \<not> (reg_final = 0xf \<and> unat (i_register s) + 15 < length (memory s))"
  assume body: "(if unat i \<le> unat reg_final
      then case read_at (memory s) (unat (i_register s) + unat i) of
             Inl e \<Rightarrow> Some (Inl e)
           | Inr v \<Rightarrow> loop (i + 1) reg_final (set_reg i v s)
      else Some (Inr s)) = Some r"
  show "\<not> (reg_final = 0xf \<and> unat (i_register s) + 15 < length (memory s))"
  proof
    assume h: "reg_final = 0xf \<and> unat (i_register s) + 15 < length (memory s)"
    let ?a = "unat (i_register s) + unat i"
    have le: "unat i \<le> 15" by (rule unat_u4_le)
    have inr: "?a < length (memory s)" using h le by simp
    from body h le inr
    have "loop (i + 1) reg_final (set_reg i (memory s ! ?a) s) = Some r"
      by (simp add: read_at_def)
    from ih[OF this] h show False by (simp add: set_reg_def)
  qed
qed

text \<open>
  For an operand below 15 the counter reaches \<open>reg_final + 1\<close> without wrapping: both
  loops end, having copied the registers 0 to \<open>reg_final\<close> to or from the memory
  from I on, and the program counter advances by 2.
\<close>

lemma unat_u4_succ: "unat (i :: u4) < 15 \<Longrightarrow> unat (i + 1) = unat i + 1"
  by (simp add: unat_word_ariths)

lemma load_reg_to_mem_loop_returns:
  "hi = unat reg_final + 1 \<Longrightarrow> hi \<le> 15 \<Longrightarrow> unat (i_register s) + hi \<le> length (memory s) \<Longrightarrow>
   k = hi - unat i \<Longrightarrow> unat i \<le> hi \<Longrightarrow>
   load_reg_to_mem_loop i reg_final s
     = Some (Inr (s\<lparr>memory :=
         fold (\<lambda>j m. m[unat (i_register s) + j := gp_registers s (of_nat j)])
           [unat i..<hi] (memory s)\<rparr>))"
proof (induction k arbitrary: i s)
  case 0
  then have c: "\<not> unat i \<le> unat reg_final" and e: "[unat i..<hi] = []" by simp_all
  show ?case by (subst load_reg_to_mem_loop.simps) (simp add: c e)
next
  case (Suc k)
  let ?a = "unat (i_register s) + unat i"
  let ?s1 = "s\<lparr>memory := (memory s)[?a := gp_registers s i]\<rparr>"
  have lt: "unat i < hi" using Suc.prems(4) by simp
  then have le: "unat i \<le> unat reg_final" using Suc.prems(1) by simp
  have i15: "unat i < 15" using lt Suc.prems(2) by simp
  have suc: "unat (i + 1) = unat i + 1" by (rule unat_u4_succ[OF i15])
  have inr: "?a < length (memory s)" using lt Suc.prems(3) by simp
  have p3: "unat (i_register ?s1) + hi \<le> length (memory ?s1)" using Suc.prems(3) by simp
  have p4: "k = hi - unat (i + 1)" using Suc.prems(4) suc by simp
  have p5: "unat (i + 1) \<le> hi" using lt suc by simp
  note ih = Suc.IH[OF Suc.prems(1,2) p3 p4 p5]
  have upt: "[unat i..<hi] = unat i # [unat (i + 1)..<hi]"
    using lt suc by (simp add: upt_conv_Cons)
  have "load_reg_to_mem_loop i reg_final s = load_reg_to_mem_loop (i + 1) reg_final ?s1"
    using le inr by (subst load_reg_to_mem_loop.simps) (simp add: write_at_def)
  also note ih
  finally show ?case by (simp add: upt)
qed

lemma load_mem_to_reg_loop_returns:
  "hi = unat reg_final + 1 \<Longrightarrow> hi \<le> 15 \<Longrightarrow> unat (i_register s) + hi \<le> length (memory s) \<Longrightarrow>
   k = hi - unat i \<Longrightarrow> unat i \<le> hi \<Longrightarrow>
   load_mem_to_reg_loop i reg_final s
     = Some (Inr (s\<lparr>gp_registers :=
         fold (\<lambda>j g. g(of_nat j := memory s ! (unat (i_register s) + j)))
           [unat i..<hi] (gp_registers s)\<rparr>))"
proof (induction k arbitrary: i s)
  case 0
  then have c: "\<not> unat i \<le> unat reg_final" and e: "[unat i..<hi] = []" by simp_all
  show ?case by (subst load_mem_to_reg_loop.simps) (simp add: c e)
next
  case (Suc k)
  let ?a = "unat (i_register s) + unat i"
  let ?s1 = "set_reg i (memory s ! ?a) s"
  have lt: "unat i < hi" using Suc.prems(4) by simp
  then have le: "unat i \<le> unat reg_final" using Suc.prems(1) by simp
  have i15: "unat i < 15" using lt Suc.prems(2) by simp
  have suc: "unat (i + 1) = unat i + 1" by (rule unat_u4_succ[OF i15])
  have inr: "?a < length (memory s)" using lt Suc.prems(3) by simp
  have p3: "unat (i_register ?s1) + hi \<le> length (memory ?s1)"
    using Suc.prems(3) by (simp add: set_reg_def)
  have p4: "k = hi - unat (i + 1)" using Suc.prems(4) suc by simp
  have p5: "unat (i + 1) \<le> hi" using lt suc by simp
  note ih = Suc.IH[OF Suc.prems(1,2) p3 p4 p5]
  have upt: "[unat i..<hi] = unat i # [unat (i + 1)..<hi]"
    using lt suc by (simp add: upt_conv_Cons)
  have "load_mem_to_reg_loop i reg_final s = load_mem_to_reg_loop (i + 1) reg_final ?s1"
    using le inr by (subst load_mem_to_reg_loop.simps) (simp add: read_at_def)
  also note ih
  finally show ?case by (simp add: upt set_reg_def)
qed

lemma bulk_transfer_below_15:
  assumes "unat reg_final < 15" "unat (i_register s) + unat reg_final < length (memory s)"
  shows "load_reg_to_mem s reg_final
     = Some (Inr (advance (s\<lparr>memory :=
         fold (\<lambda>j m. m[unat (i_register s) + j := gp_registers s (of_nat j)])
           [0..<unat reg_final + 1] (memory s)\<rparr>)))"
    and "load_mem_to_reg s reg_final
     = Some (Inr (advance (s\<lparr>gp_registers :=
         fold (\<lambda>j g. g(of_nat j := memory s ! (unat (i_register s) + j)))
           [0..<unat reg_final + 1] (gp_registers s)\<rparr>)))"
proof -
  have a: "unat reg_final + 1 \<le> 15" "unat (i_register s) + (unat reg_final + 1) \<le> length (memory s)"
    "unat (0 :: u4) \<le> unat reg_final + 1"
    using assms by simp_all
  from load_reg_to_mem_loop_returns[OF refl a(1,2) refl a(3)]
  show "load_reg_to_mem s reg_final
     = Some (Inr (advance (s\<lparr>memory :=
         fold (\<lambda>j m. m[unat (i_register s) + j := gp_registers s (of_nat j)])
           [0..<unat reg_final + 1] (memory s)\<rparr>)))"
    by (simp only: load_reg_to_mem_def unat_0 option.case sum.case)
  from load_mem_to_reg_loop_returns[OF refl a(1,2) refl a(3)] assms(1)
  show "load_mem_to_reg s reg_final
     = Some (Inr (advance (s\<lparr>gp_registers :=
         fold (\<lambda>j g. g(of_nat j := memory s ! (unat (i_register s) + j)))
           [0..<unat reg_final + 1] (gp_registers s)\<rparr>)))"
    by (simp only: load_mem_to_reg_def unat_0 option.case sum.case) simp
qed

text \<open>
  Claim C5. The claim: for every operand N from 0 to 15 the two bulk transfers end, having
  copied registers 0 to N, and advance the program counter by 2. The loop counter is a
  \<open>u4\<close> and the loop runs while \<open>i <= reg_final\<close>: for N = 15 the counter wraps from
  15 to 0 and the condition never fails. Whenever the sixteen bytes from I on lie inside
  the memory, neither Fx55 nor Fx65 with x = 15 returns.
\<close>

theorem bulk_transfer_15_never_returns:
  assumes "unat (i_register s) + 15 < length (memory s)"
  shows "evaluate_instruction env s 0xff55 = None \<and> evaluate_instruction env s 0xff65 = None"
proof -
  have a: "load_reg_to_mem_loop 0 0xf s = None"
    using load_reg_to_mem_loop_15[of 0 "0xf" s] assms by (cases "load_reg_to_mem_loop 0 0xf s") auto
  have b: "load_mem_to_reg_loop 0 0xf s = None"
    using load_mem_to_reg_loop_15[of 0 "0xf" s] assms by (cases "load_mem_to_reg_loop 0 0xf s") auto
  have n: "get_nibble 0xff55 1 = Inr 0xf" "get_nibble 0xff65 1 = Inr 0xf"
    by (simp_all add: get_nibble_def u4_of_def)
  show ?thesis using n
    by (simp add: evaluate_instruction_def returns_if_ends_def load_reg_to_mem_def load_mem_to_reg_def a b)
qed

theorem bulk_transfer_15_never_returns_witness:
  "unat (i_register blank_emulator) + 15 < length (memory blank_emulator)
   \<and> evaluate_instruction quiet_environment blank_emulator 0xff55 = None
   \<and> evaluate_instruction quiet_environment blank_emulator 0xff65 = None"
proof -
  have h: "unat (i_register blank_emulator) + 15 < length (memory blank_emulator)"
    by (simp add: blank_emulator_def)
  from bulk_transfer_15_never_returns[OF h, of quiet_environment] h show ?thesis by simp
qed

section \<open>Drawing (Dxyn)\<close>

lemma pixel_index_less: "pixel_index ulx uly r b < SCREEN_WIDTH * SCREEN_HEIGHT"
proof -
  have x: "(unat ulx + b) mod 64 < 64" by simp
  have y: "(unat uly + r) mod 32 \<le> 31"
    using mod_less_divisor[of 32 "unat uly + r"] by simp
  then have "((unat uly + r) mod 32) * 64 \<le> 31 * 64" by simp
  with x show ?thesis
    by (simp add: pixel_index_def SCREEN_WIDTH_def SCREEN_HEIGHT_def)
qed

lemma mod_shift_inj_le:
  fixes a a' q X :: nat
  assumes "a \<le> a'" "a' < q" "(X + a) mod q = (X + a') mod q"
  shows "a = a'"
proof -
  have le: "X + a \<le> X + a'" using assms(1) by simp
  have "q dvd a' - a"
    using mod_eq_dvd_iff_nat[OF le, of q] assms(3) by simp
  moreover have "a' - a < q" using assms(2) by simp
  ultimately have "a' - a = 0"
    using dvd_imp_le[of q "a' - a"] by (cases "a' - a = 0") auto
  with assms(1) show ?thesis by simp
qed

lemma mod_shift_inj:
  fixes a a' q X :: nat
  assumes "a < q" "a' < q" "(X + a) mod q = (X + a') mod q"
  shows "a = a'"
proof (cases "a \<le> a'")
  case True
  then show ?thesis using mod_shift_inj_le[of a a' q X] assms by simp
next
  case False
  then have "a' \<le> a" by simp
  then show ?thesis using mod_shift_inj_le[of a' a q X] assms by simp
qed

lemma pixel_index_inj:
  assumes "r < 32" "r' < 32" "b < 8" "b' < 8"
    and eq: "pixel_index ulx uly r b = pixel_index ulx uly r' b'"
  shows "r = r' \<and> b = b'"
proof -
  let ?x = "(unat ulx + b) mod 64" and ?x' = "(unat ulx + b') mod 64"
  let ?y = "(unat uly + r) mod 32" and ?y' = "(unat uly + r') mod 32"
  have e: "?x + ?y * 64 = ?x' + ?y' * 64"
    using eq by (simp add: pixel_index_def SCREEN_WIDTH_def SCREEN_HEIGHT_def)
  have "(?x + ?y * 64) mod 64 = ?x" "(?x' + ?y' * 64) mod 64 = ?x'" by simp_all
  with e have x: "?x = ?x'" by metis
  with e have y: "?y = ?y'" by simp
  have "b = b'" using mod_shift_inj[of b 64 b' "unat ulx"] x assms(3,4) by simp
  moreover have "r = r'" using mod_shift_inj[of r 32 r' "unat uly"] y assms(1,2) by simp
  ultimately show ?thesis by simp
qed

lemma draw_pixel_buffer:
  "display_buffer (draw_pixel ulx uly row r b s) =
     (display_buffer s)[pixel_index ulx uly r b :=
        (display_buffer s ! pixel_index ulx uly r b \<noteq> sprite_bit row b)]"
  by (simp add: draw_pixel_def pixel_index_def sprite_bit_def Let_def set_reg_def)

lemma draw_pixel_regs:
  "gp_registers (draw_pixel ulx uly row r b s) =
     (if display_buffer s ! pixel_index ulx uly r b \<and> sprite_bit row b
      then (gp_registers s)(0xf := 1) else gp_registers s)"
  by (auto simp add: draw_pixel_def pixel_index_def sprite_bit_def Let_def set_reg_def)

lemma draw_pixel_rest:
  "memory (draw_pixel ulx uly row r b s) = memory s"
  "i_register (draw_pixel ulx uly row r b s) = i_register s"
  "program_counter (draw_pixel ulx uly row r b s) = program_counter s"
  by (simp_all add: draw_pixel_def Let_def set_reg_def)


lemma row_hits_step:
  "b < SPRITE_WIDTH \<Longrightarrow>
   row_hits ulx uly row r b p \<longleftrightarrow>
     (p = pixel_index ulx uly r b \<and> sprite_bit row b) \<or> row_hits ulx uly row r (Suc b) p"
  unfolding row_hits_def
  by (metis Suc_leI le_eq_less_or_eq Suc_le_lessD order_refl)

lemma row_hits_beyond: "SPRITE_WIDTH \<le> b \<Longrightarrow> \<not> row_hits ulx uly row r b p"
  by (auto simp add: row_hits_def)

lemma row_hits_not_earlier:
  assumes "r < 32" "b < SPRITE_WIDTH"
  shows "\<not> row_hits ulx uly row r (Suc b) (pixel_index ulx uly r b)"
proof
  assume "row_hits ulx uly row r (Suc b) (pixel_index ulx uly r b)"
  then obtain b' where b': "Suc b \<le> b'" "b' < SPRITE_WIDTH"
      "pixel_index ulx uly r b = pixel_index ulx uly r b'"
    by (auto simp add: row_hits_def)
  have "b < 8" "b' < 8" using assms(2) b'(2) by (simp_all add: SPRITE_WIDTH_def)
  from pixel_index_inj[OF assms(1) assms(1) this b'(3)] b'(1) show False by simp
qed

lemma row_collides_step:
  "b < SPRITE_WIDTH \<Longrightarrow>
   row_collides ulx uly row r b buf \<longleftrightarrow>
     (buf ! pixel_index ulx uly r b \<and> sprite_bit row b) \<or> row_collides ulx uly row r (Suc b) buf"
  unfolding row_collides_def
  by (metis Suc_leI le_eq_less_or_eq Suc_le_lessD order_refl)

lemma row_collides_beyond: "SPRITE_WIDTH \<le> b \<Longrightarrow> \<not> row_collides ulx uly row r b buf"
  by (auto simp add: row_collides_def)

lemma row_collides_update:
  assumes "r < 32" "b < SPRITE_WIDTH"
  shows "row_collides ulx uly row r (Suc b) (buf[pixel_index ulx uly r b := v])
         = row_collides ulx uly row r (Suc b) buf"
proof -
  have "buf[pixel_index ulx uly r b := v] ! pixel_index ulx uly r b' = buf ! pixel_index ulx uly r b'"
    if "Suc b \<le> b'" "b' < SPRITE_WIDTH" for b'
  proof -
    have "b < 8" "b' < 8" using assms(2) that(2) by (simp_all add: SPRITE_WIDTH_def)
    from pixel_index_inj[OF assms(1) assms(1) this] that(1)
    have "pixel_index ulx uly r b \<noteq> pixel_index ulx uly r b'" by auto
    then show ?thesis by simp
  qed
  then show ?thesis unfolding row_collides_def by auto
qed

lemma draw_bits_rest:
  "memory (draw_bits ulx uly row r b s) = memory s
   \<and> i_register (draw_bits ulx uly row r b s) = i_register s
   \<and> program_counter (draw_bits ulx uly row r b s) = program_counter s
   \<and> length (display_buffer (draw_bits ulx uly row r b s)) = length (display_buffer s)"
proof (induction ulx uly row r b s rule: draw_bits.induct)
  case (1 ulx uly row r b s)
  show ?case
  proof (cases "b < SPRITE_WIDTH")
    case True
    with 1 show ?thesis
      by (subst (1 2 3 4) draw_bits.simps) (simp add: draw_pixel_rest draw_pixel_buffer)
  next
    case False
    then show ?thesis by (simp add: draw_bits.simps)
  qed
qed

lemma draw_bits_buffer:
  "r < 32 \<Longrightarrow> p < length (display_buffer s) \<Longrightarrow>
   display_buffer (draw_bits ulx uly row r b s) ! p
     = (display_buffer s ! p \<noteq> row_hits ulx uly row r b p)"
proof (induction ulx uly row r b s rule: draw_bits.induct)
  case (1 ulx uly row r b s)
  note r = \<open>r < 32\<close> and p = \<open>p < length (display_buffer s)\<close>
  show ?case
  proof (cases "b < SPRITE_WIDTH")
    case True
    let ?s1 = "draw_pixel ulx uly row r b s"
    have len: "p < length (display_buffer ?s1)" using p by (simp add: draw_pixel_buffer)
    have "display_buffer (draw_bits ulx uly row r b s) ! p
          = display_buffer (draw_bits ulx uly row r (b + 1) ?s1) ! p"
      using True by (subst draw_bits.simps) simp
    also have "\<dots> = (display_buffer ?s1 ! p \<noteq> row_hits ulx uly row r (b + 1) p)"
      using "1.IH"[OF True r len] .
    also have "\<dots> = (display_buffer s ! p \<noteq> row_hits ulx uly row r b p)"
    proof (cases "p = pixel_index ulx uly r b")
      case True
      then show ?thesis
        using row_hits_not_earlier[OF r \<open>b < SPRITE_WIDTH\<close>, of ulx uly row]
          row_hits_step[OF \<open>b < SPRITE_WIDTH\<close>, of ulx uly row r p] p
        by (auto simp add: draw_pixel_buffer)
    next
      case False
      then show ?thesis
        using row_hits_step[OF \<open>b < SPRITE_WIDTH\<close>, of ulx uly row r p]
        by (simp add: draw_pixel_buffer)
    qed
    finally show ?thesis .
  next
    case False
    then show ?thesis by (simp add: draw_bits.simps row_hits_beyond)
  qed
qed

lemma draw_bits_regs:
  "r < 32 \<Longrightarrow>
   gp_registers (draw_bits ulx uly row r b s)
     = (if row_collides ulx uly row r b (display_buffer s)
        then (gp_registers s)(0xf := 1) else gp_registers s)"
proof (induction ulx uly row r b s rule: draw_bits.induct)
  case (1 ulx uly row r b s)
  note r = \<open>r < 32\<close>
  show ?case
  proof (cases "b < SPRITE_WIDTH")
    case True
    let ?s1 = "draw_pixel ulx uly row r b s"
    have "gp_registers (draw_bits ulx uly row r b s)
          = gp_registers (draw_bits ulx uly row r (b + 1) ?s1)"
      using True by (subst draw_bits.simps) simp
    also have "\<dots> = (if row_collides ulx uly row r (b + 1) (display_buffer ?s1)
            then (gp_registers ?s1)(0xf := 1) else gp_registers ?s1)"
      using "1.IH"[OF True r] .
    also have "\<dots> = (if row_collides ulx uly row r b (display_buffer s)
            then (gp_registers s)(0xf := 1) else gp_registers s)"
      using row_collides_step[OF True, of ulx uly row r "display_buffer s"]
      by (simp add: draw_pixel_buffer draw_pixel_regs row_collides_update[OF r True])
    finally show ?thesis .
  next
    case False
    then show ?thesis by (simp add: draw_bits.simps row_collides_beyond)
  qed
qed


lemma sprite_hits_step:
  "r < n \<Longrightarrow>
   sprite_hits ulx uly mem i n r p \<longleftrightarrow>
     row_hits ulx uly (mem ! (i + r)) r 0 p \<or> sprite_hits ulx uly mem i n (Suc r) p"
  unfolding sprite_hits_def
  by (metis Suc_leI le_eq_less_or_eq Suc_le_lessD order_refl)

lemma sprite_hits_beyond: "n \<le> r \<Longrightarrow> \<not> sprite_hits ulx uly mem i n r p"
  by (auto simp add: sprite_hits_def)

lemma sprite_collides_step:
  "r < n \<Longrightarrow>
   sprite_collides ulx uly mem i n r buf \<longleftrightarrow>
     row_collides ulx uly (mem ! (i + r)) r 0 buf \<or> sprite_collides ulx uly mem i n (Suc r) buf"
  unfolding sprite_collides_def
  by (metis Suc_leI le_eq_less_or_eq Suc_le_lessD order_refl)

lemma sprite_collides_beyond: "n \<le> r \<Longrightarrow> \<not> sprite_collides ulx uly mem i n r buf"
  by (auto simp add: sprite_collides_def)

lemma row_hits_other_row:
  assumes "r < 32" "r' < 32" "r \<noteq> r'" "b' < SPRITE_WIDTH"
  shows "\<not> row_hits ulx uly row r b0 (pixel_index ulx uly r' b')"
proof
  assume "row_hits ulx uly row r b0 (pixel_index ulx uly r' b')"
  then obtain b where b: "b < SPRITE_WIDTH" "pixel_index ulx uly r' b' = pixel_index ulx uly r b"
    by (auto simp add: row_hits_def)
  have "b' < 8" "b < 8" using assms(4) b(1) by (simp_all add: SPRITE_WIDTH_def)
  from pixel_index_inj[OF assms(2) assms(1) this b(2)] assms(3) show False by simp
qed

lemma sprite_hits_disjoint:
  assumes "r < n" "n \<le> 32" "row_hits ulx uly row r 0 p"
  shows "\<not> sprite_hits ulx uly mem i n (Suc r) p"
proof
  assume "sprite_hits ulx uly mem i n (Suc r) p"
  then obtain r' where r': "Suc r \<le> r'" "r' < n" "row_hits ulx uly (mem ! (i + r')) r' 0 p"
    by (auto simp add: sprite_hits_def)
  from assms(3) obtain b where b: "b < SPRITE_WIDTH" "p = pixel_index ulx uly r b"
    by (auto simp add: row_hits_def)
  have "r' < 32" "r < 32" "r' \<noteq> r" using r'(1,2) assms(1,2) by simp_all
  from row_hits_other_row[OF this b(1)] r'(3) b(2) show False by simp
qed

lemma draw_rows_fails:
  "r < n \<Longrightarrow> length (memory s) < unat (i_register s) + n \<Longrightarrow>
   draw_rows ulx uly n r s = Inl OutOfRange"
proof (induction ulx uly n r s rule: draw_rows.induct)
  case (1 ulx uly n r s)
  show ?case
  proof (cases "unat (i_register s) + r < length (memory s)")
    case True
    let ?s1 = "draw_bits ulx uly (memory s ! (unat (i_register s) + r)) r 0 s"
    have rd: "read_at (memory s) (unat (i_register s) + r) = Inr (memory s ! (unat (i_register s) + r))"
      using True by (simp add: read_at_def)
    have "r + 1 < n" using True "1.prems" by simp
    moreover have "length (memory ?s1) < unat (i_register ?s1) + n"
      using "1.prems"(2) by (simp add: draw_bits_rest)
    ultimately have "draw_rows ulx uly n (r + 1) ?s1 = Inl OutOfRange"
      using "1.IH"[OF "1.prems"(1) rd] by simp
    then show ?thesis
      using "1.prems"(1) rd by (subst draw_rows.simps) simp
  next
    case False
    then show ?thesis
      using "1.prems"(1) by (subst draw_rows.simps) (simp add: read_at_def)
  qed
qed

lemma draw_rows_returns:
  "unat (i_register s) + n \<le> length (memory s) \<Longrightarrow> \<exists>s'. draw_rows ulx uly n r s = Inr s'"
proof (induction ulx uly n r s rule: draw_rows.induct)
  case (1 ulx uly n r s)
  show ?case
  proof (cases "r < n")
    case True
    let ?s1 = "draw_bits ulx uly (memory s ! (unat (i_register s) + r)) r 0 s"
    have rd: "read_at (memory s) (unat (i_register s) + r) = Inr (memory s ! (unat (i_register s) + r))"
      using True "1.prems" by (simp add: read_at_def)
    have "unat (i_register ?s1) + n \<le> length (memory ?s1)"
      using "1.prems" by (simp add: draw_bits_rest)
    from "1.IH"[OF True rd this] show ?thesis
      using True rd by (subst draw_rows.simps) simp
  next
    case False
    then show ?thesis by (subst draw_rows.simps) simp
  qed
qed

lemma draw_rows_rest:
  "draw_rows ulx uly n r s = Inr s' \<Longrightarrow>
   memory s' = memory s \<and> i_register s' = i_register s
   \<and> program_counter s' = program_counter s
   \<and> length (display_buffer s') = length (display_buffer s)"
proof (induction ulx uly n r s rule: draw_rows.induct)
  case (1 ulx uly n r s)
  show ?case
  proof (cases "r < n")
    case True
    from "1.prems" True obtain row where
      rd: "read_at (memory s) (unat (i_register s) + r) = Inr row"
      and rec: "draw_rows ulx uly n (r + 1) (draw_bits ulx uly row r 0 s) = Inr s'"
      by (subst (asm) draw_rows.simps) (auto split: sum.splits)
    from "1.IH"[OF True rd rec] show ?thesis by (simp add: draw_bits_rest)
  next
    case False
    with "1.prems" show ?thesis by (subst (asm) draw_rows.simps) simp
  qed
qed

lemma draw_rows_buffer:
  "draw_rows ulx uly n r s = Inr s' \<Longrightarrow> n \<le> 32 \<Longrightarrow> p < length (display_buffer s) \<Longrightarrow>
   display_buffer s' ! p
     = (display_buffer s ! p \<noteq> sprite_hits ulx uly (memory s) (unat (i_register s)) n r p)"
proof (induction ulx uly n r s rule: draw_rows.induct)
  case (1 ulx uly n r s)
  note n = \<open>n \<le> 32\<close> and p = \<open>p < length (display_buffer s)\<close>
  show ?case
  proof (cases "r < n")
    case True
    from "1.prems"(1) True obtain row where
      rd: "read_at (memory s) (unat (i_register s) + r) = Inr row"
      and rec: "draw_rows ulx uly n (r + 1) (draw_bits ulx uly row r 0 s) = Inr s'"
      by (subst (asm) draw_rows.simps) (auto split: sum.splits)
    have row: "row = memory s ! (unat (i_register s) + r)"
      using rd by (simp add: read_at_def split: if_splits)
    let ?s1 = "draw_bits ulx uly row r 0 s"
    have r32: "r < 32" using True n by simp
    have p1: "p < length (display_buffer ?s1)" using p by (simp add: draw_bits_rest)
    have "display_buffer s' ! p
          = (display_buffer ?s1 ! p
              \<noteq> sprite_hits ulx uly (memory ?s1) (unat (i_register ?s1)) n (r + 1) p)"
      using "1.IH"[OF True rd rec n p1] .
    also have "\<dots> = ((display_buffer s ! p \<noteq> row_hits ulx uly row r 0 p)
              \<noteq> sprite_hits ulx uly (memory s) (unat (i_register s)) n (Suc r) p)"
      by (simp add: draw_bits_rest draw_bits_buffer[OF r32 p])
    also have "\<dots> = (display_buffer s ! p
              \<noteq> sprite_hits ulx uly (memory s) (unat (i_register s)) n r p)"
      using sprite_hits_step[OF True, of ulx uly "memory s" "unat (i_register s)" p]
        sprite_hits_disjoint[OF True n, of ulx uly row p "memory s" "unat (i_register s)"]
      by (auto simp add: row)
    finally show ?thesis .
  next
    case False
    with "1.prems"(1) show ?thesis
      by (subst (asm) draw_rows.simps) (simp add: sprite_hits_beyond)
  qed
qed


lemma sprite_collides_row_drawn:
  assumes r: "r < n" and n: "n \<le> 32"
    and len: "length (display_buffer s) = SCREEN_WIDTH * SCREEN_HEIGHT"
  shows "sprite_collides ulx uly mem i n (Suc r) (display_buffer (draw_bits ulx uly row r 0 s))
         = sprite_collides ulx uly mem i n (Suc r) (display_buffer s)"
proof -
  have r32: "r < 32" using r n by simp
  have same: "display_buffer (draw_bits ulx uly row r 0 s) ! pixel_index ulx uly r' b'
              = display_buffer s ! pixel_index ulx uly r' b'"
    if "Suc r \<le> r'" "r' < n" "b' < SPRITE_WIDTH" for r' b'
  proof -
    have lt: "pixel_index ulx uly r' b' < length (display_buffer s)"
      using pixel_index_less[of ulx uly r' b'] len by simp
    have "r' < 32" "r \<noteq> r'" using that(1,2) n by simp_all
    from row_hits_other_row[OF r32 this that(3)] draw_bits_buffer[OF r32 lt]
    show ?thesis by simp
  qed
  have "row_collides ulx uly row' r' 0 (display_buffer (draw_bits ulx uly row r 0 s))
        = row_collides ulx uly row' r' 0 (display_buffer s)"
    if "Suc r \<le> r'" "r' < n" for r' row'
    using same[OF that] unfolding row_collides_def by auto
  then show ?thesis unfolding sprite_collides_def by auto
qed

lemma draw_rows_regs:
  "draw_rows ulx uly n r s = Inr s' \<Longrightarrow> n \<le> 32 \<Longrightarrow>
   length (display_buffer s) = SCREEN_WIDTH * SCREEN_HEIGHT \<Longrightarrow>
   gp_registers s'
     = (if sprite_collides ulx uly (memory s) (unat (i_register s)) n r (display_buffer s)
        then (gp_registers s)(0xf := 1) else gp_registers s)"
proof (induction ulx uly n r s rule: draw_rows.induct)
  case (1 ulx uly n r s)
  note n = \<open>n \<le> 32\<close> and len = \<open>length (display_buffer s) = SCREEN_WIDTH * SCREEN_HEIGHT\<close>
  show ?case
  proof (cases "r < n")
    case True
    from "1.prems"(1) True obtain row where
      rd: "read_at (memory s) (unat (i_register s) + r) = Inr row"
      and rec: "draw_rows ulx uly n (r + 1) (draw_bits ulx uly row r 0 s) = Inr s'"
      by (subst (asm) draw_rows.simps) (auto split: sum.splits)
    have row: "row = memory s ! (unat (i_register s) + r)"
      using rd by (simp add: read_at_def split: if_splits)
    let ?s1 = "draw_bits ulx uly row r 0 s"
    have r32: "r < 32" using True n by simp
    have len1: "length (display_buffer ?s1) = SCREEN_WIDTH * SCREEN_HEIGHT"
      using len by (simp add: draw_bits_rest)
    have "gp_registers s'
          = (if sprite_collides ulx uly (memory ?s1) (unat (i_register ?s1)) n (r + 1)
                  (display_buffer ?s1)
             then (gp_registers ?s1)(0xf := 1) else gp_registers ?s1)"
      using "1.IH"[OF True rd rec n len1] .
    also have "\<dots> = (if sprite_collides ulx uly (memory s) (unat (i_register s)) n (Suc r)
                  (display_buffer s)
             then (gp_registers ?s1)(0xf := 1) else gp_registers ?s1)"
      by (simp add: draw_bits_rest sprite_collides_row_drawn[OF True n len])
    also have "\<dots> = (if sprite_collides ulx uly (memory s) (unat (i_register s)) n r
                  (display_buffer s)
             then (gp_registers s)(0xf := 1) else gp_registers s)"
      using sprite_collides_step[OF True, of ulx uly "memory s" "unat (i_register s)" "display_buffer s"]
      by (simp add: draw_bits_regs[OF r32] row)
    finally show ?thesis .
  next
    case False
    with "1.prems"(1) show ?thesis
      by (subst (asm) draw_rows.simps) (simp add: sprite_collides_beyond)
  qed
qed

text \<open>What a draw that returns has done.\<close>

lemma draw_sprite_effect:
  assumes d: "draw_sprite s x y v = Inr s'"
    and len: "length (display_buffer s) = SCREEN_WIDTH * SCREEN_HEIGHT"
  shows "memory s' = memory s" "i_register s' = i_register s"
    "length (display_buffer s') = length (display_buffer s)"
    "p < length (display_buffer s) \<Longrightarrow>
       display_buffer s' ! p
         = (display_buffer s ! p
             \<noteq> sprite_hits (((gp_registers s)(0xf := 0)) x) (((gp_registers s)(0xf := 0)) y)
                   (memory s) (unat (i_register s)) (unat v) 0 p)"
    "gp_registers s'
       = (gp_registers s)(0xf :=
           if sprite_collides (((gp_registers s)(0xf := 0)) x) (((gp_registers s)(0xf := 0)) y)
                (memory s) (unat (i_register s)) (unat v) 0 (display_buffer s)
           then 1 else 0)"
proof -
  let ?s0 = "set_reg 0xf 0 s"
  let ?ulx = "((gp_registers s)(0xf := 0)) x" and ?uly = "((gp_registers s)(0xf := 0)) y"
  from d obtain s1 where
    rows: "draw_rows ?ulx ?uly (unat v) 0 ?s0 = Inr s1" and s': "s' = advance s1"
    by (auto simp add: draw_sprite_def Let_def set_reg_def split: sum.splits)
  have v: "unat v \<le> 32" using unat_u4_le[of v] by simp
  have s0: "memory ?s0 = memory s" "i_register ?s0 = i_register s"
    "display_buffer ?s0 = display_buffer s" "gp_registers ?s0 = (gp_registers s)(0xf := 0)"
    by (simp_all add: set_reg_def)
  from draw_rows_rest[OF rows] show "memory s' = memory s" "i_register s' = i_register s"
    "length (display_buffer s') = length (display_buffer s)"
    by (simp_all add: s' advance_def s0)
  show "display_buffer s' ! p
         = (display_buffer s ! p \<noteq> sprite_hits ?ulx ?uly (memory s) (unat (i_register s)) (unat v) 0 p)"
    if "p < length (display_buffer s)"
    using draw_rows_buffer[OF rows v, of p] that by (simp add: s' advance_def s0)
  show "gp_registers s'
       = (gp_registers s)(0xf :=
           if sprite_collides ?ulx ?uly (memory s) (unat (i_register s)) (unat v) 0 (display_buffer s)
           then 1 else 0)"
    using draw_rows_regs[OF rows v] len by (simp add: s' advance_def s0)
qed

lemma draw_sprite_returns:
  assumes "unat (i_register s) + unat v \<le> length (memory s)"
  shows "\<exists>s'. draw_sprite s x y v = Inr s'"
proof -
  let ?s0 = "set_reg 0xf 0 s"
  have "unat (i_register ?s0) + unat v \<le> length (memory ?s0)"
    using assms by (simp add: set_reg_def)
  from draw_rows_returns[OF this, of "gp_registers ?s0 x" "gp_registers ?s0 y" 0]
  show ?thesis by (auto simp add: draw_sprite_def Let_def)
qed

lemma draw_sprite_fails:
  assumes "length (memory s) < unat (i_register s) + unat v" and "0 < unat v"
  shows "draw_sprite s x y v = Inl OutOfRange"
proof -
  let ?s0 = "set_reg 0xf 0 s"
  have "length (memory ?s0) < unat (i_register ?s0) + unat v"
    using assms by (simp add: set_reg_def)
  then show ?thesis
    using assms(2) draw_rows_fails[of 0 "unat v" ?s0 "gp_registers ?s0 x" "gp_registers ?s0 y"]
    by (simp add: draw_sprite_def Let_def)
qed


lemma sprite_hits_less:
  "sprite_hits ulx uly mem i n r p \<Longrightarrow> p < SCREEN_WIDTH * SCREEN_HEIGHT"
  using pixel_index_less by (auto simp add: sprite_hits_def row_hits_def)

lemma sprite_collides_hits:
  "sprite_collides ulx uly mem i n r buf \<longleftrightarrow> (\<exists>p. sprite_hits ulx uly mem i n r p \<and> buf ! p)"
  unfolding sprite_collides_def sprite_hits_def row_collides_def row_hits_def
  by blast

lemma draw_sprite_returns_without_rows:
  "unat v = 0 \<Longrightarrow> \<exists>s'. draw_sprite s x y v = Inr s'"
  by (simp add: draw_sprite_def Let_def draw_rows.simps)

lemma draw_sprite_twice:
  assumes len: "length (display_buffer s) = SCREEN_WIDTH * SCREEN_HEIGHT"
    and inr: "unat v = 0 \<or> unat (i_register s) + unat v \<le> length (memory s)"
  shows "\<exists>s1 s2. draw_sprite s x y v = Inr s1 \<and> draw_sprite s1 x y v = Inr s2
     \<and> display_buffer s2 = display_buffer s
     \<and> gp_registers s2 0xf
         = (if \<exists>p < length (display_buffer s). \<not> display_buffer s ! p \<and> display_buffer s1 ! p
            then 1 else 0)"
proof -
  have ret: "\<exists>s'. draw_sprite t x y v = Inr s'"
    if "unat v = 0 \<or> unat (i_register t) + unat v \<le> length (memory t)" for t
    using that draw_sprite_returns[of t v x y] draw_sprite_returns_without_rows[of v t x y]
    by blast
  from ret[OF inr] obtain s1 where d1: "draw_sprite s x y v = Inr s1" by blast
  note e1 = draw_sprite_effect[OF d1 len]
  have len1: "length (display_buffer s1) = SCREEN_WIDTH * SCREEN_HEIGHT"
    using e1(3) len by simp
  have "unat v = 0 \<or> unat (i_register s1) + unat v \<le> length (memory s1)"
    using inr e1(1,2) by simp
  from ret[OF this] obtain s2 where d2: "draw_sprite s1 x y v = Inr s2" by blast
  note e2 = draw_sprite_effect[OF d2 len1]
  let ?g0 = "(gp_registers s)(0xf := 0)"
  let ?H = "sprite_hits (?g0 x) (?g0 y) (memory s) (unat (i_register s)) (unat v) 0"
  have g: "(gp_registers s1)(0xf := 0) = ?g0" by (simp add: e1(5))
  have b1: "display_buffer s1 ! p = (display_buffer s ! p \<noteq> ?H p)"
    if "p < length (display_buffer s)" for p
    using e1(4)[OF that] .
  have b2: "display_buffer s2 ! p = (display_buffer s1 ! p \<noteq> ?H p)"
    if "p < length (display_buffer s)" for p
    using e2(4)[of p] that e1(1,2,3) by (simp add: g)
  have "display_buffer s2 = display_buffer s"
  proof (rule nth_equalityI)
    show "length (display_buffer s2) = length (display_buffer s)" using e2(3) e1(3) by simp
  next
    fix p assume "p < length (display_buffer s2)"
    then have p: "p < length (display_buffer s)" using e2(3) e1(3) by simp
    show "display_buffer s2 ! p = display_buffer s ! p"
      using b1[OF p] b2[OF p] by auto
  qed
  moreover have "sprite_collides (?g0 x) (?g0 y) (memory s) (unat (i_register s)) (unat v) 0
                   (display_buffer s1)
                 \<longleftrightarrow> (\<exists>p < length (display_buffer s). \<not> display_buffer s ! p \<and> display_buffer s1 ! p)"
    (is "?C \<longleftrightarrow> ?T")
  proof
    assume ?C
    then obtain p where p: "?H p" "display_buffer s1 ! p"
      by (auto simp add: sprite_collides_hits)
    have lt: "p < length (display_buffer s)" using sprite_hits_less[OF p(1)] len by simp
    from b1[OF lt] p have "\<not> display_buffer s ! p" by simp
    with lt p(2) show ?T by blast
  next
    assume ?T
    then obtain p where p: "p < length (display_buffer s)" "\<not> display_buffer s ! p"
      "display_buffer s1 ! p" by blast
    from b1[OF p(1)] p(2,3) have "?H p" by simp
    with p(3) show ?C by (auto simp add: sprite_collides_hits)
  qed
  then have "gp_registers s2 0xf
         = (if \<exists>p < length (display_buffer s). \<not> display_buffer s ! p \<and> display_buffer s1 ! p
            then 1 else 0)"
    using e2(5) e1(1,2) by (simp add: g)
  ultimately show ?thesis using d1 d2 by blast
qed

text \<open>
  On the rows that lie inside the memory the read of the layout is the read of the
  array, so the two draws agree wherever \<open>draw_sprite\<close> returns.
\<close>

lemma draw_rows_laid_out_in_range:
  "unat (i_register s) + n \<le> length (memory s) \<Longrightarrow>
   draw_rows_laid_out ulx uly n r s = draw_rows ulx uly n r s"
proof (induction ulx uly n r s rule: draw_rows.induct)
  case (1 ulx uly n r s)
  show ?case
  proof (cases "r < n")
    case True
    let ?row = "memory s ! (unat (i_register s) + r)"
    let ?s1 = "draw_bits ulx uly ?row r 0 s"
    have lt: "unat (i_register s) + r < length (memory s)" using True "1.prems" by simp
    have rd: "read_at (memory s) (unat (i_register s) + r) = Inr ?row"
      using lt by (simp add: read_at_def)
    have rl: "read_laid_out s (unat (i_register s) + r) = Inr ?row"
      using lt by (simp add: read_laid_out_def)
    have "unat (i_register ?s1) + n \<le> length (memory ?s1)"
      using "1.prems" by (simp add: draw_bits_rest)
    from "1.IH"[OF True rd this]
    have "draw_rows_laid_out ulx uly n (r + 1) ?s1 = draw_rows ulx uly n (r + 1) ?s1" .
    then show ?thesis
      using True rd rl
      by (subst draw_rows_laid_out.simps, subst draw_rows.simps) simp
  next
    case False
    then show ?thesis
      by (subst draw_rows_laid_out.simps, subst draw_rows.simps) simp
  qed
qed

lemma draw_sprite_laid_out_in_range:
  assumes "unat v = 0 \<or> unat (i_register s) + unat v \<le> length (memory s)"
  shows "draw_sprite_laid_out s x y v = draw_sprite s x y v"
proof (cases "unat v = 0")
  case True
  then show ?thesis
    by (simp add: draw_sprite_laid_out_def draw_sprite_def draw_rows_laid_out.simps draw_rows.simps)
next
  case False
  with assms have "unat (i_register (set_reg 0xf 0 s)) + unat v \<le> length (memory (set_reg 0xf 0 s))"
    by (simp add: set_reg_def)
  from draw_rows_laid_out_in_range[OF this] show ?thesis
    by (simp add: draw_sprite_laid_out_def draw_sprite_def)
qed

text \<open>
  Claim C7, as stated: for every state, whatever I and the row count, drawing twice
  restores the frame buffer. The draw does not check \<open>i_register + row_i\<close>, and a row
  read past the end of the memory need not be the same at the second draw. With
  I = 0x1000, one row and the program counter at 0x200, on the layout above the first
  draw reads the low byte of the program counter, 0x00, draws nothing and moves the
  program counter to 0x202; the second draw reads 0x02 and turns on the pixel in column
  6, which was off before the first draw.
\<close>

theorem draw_twice_past_memory_end:
  "(case draw_sprite_laid_out past_end_emulator 0 0 1 of
      Inr s1 \<Rightarrow>
        (case draw_sprite_laid_out s1 0 0 1 of
           Inr s2 \<Rightarrow>
             display_buffer s1 = display_buffer past_end_emulator
             \<and> program_counter s1 = 0x202
             \<and> display_buffer s2 ! 6 \<and> \<not> display_buffer past_end_emulator ! 6
         | Inl e \<Rightarrow> False)
    | Inl e \<Rightarrow> False)"
  by code_simp

text \<open>
  Claim C7, amended: in every state in which the draw reads no row outside the memory
  (N = 0, or I + N \<le> 4096), for all position registers and every buffer, executing
  the same draw instruction twice in succession restores the frame buffer to what it was
  before the first draw, and VF after the second draw is 1 exactly when the first draw
  turned on at least one pixel that was off, and 0 otherwise.
\<close>

theorem draw_twice_restores:
  assumes wf: "wf_emulator s"
    and m: "instruction AND 0xf000 = 0xd000"
    and x: "get_nibble instruction 1 = Inr x"
    and y: "get_nibble instruction 2 = Inr y"
    and n: "get_nibble instruction 3 = Inr n"
    and inr: "unat n = 0 \<or> unat (i_register s) + unat n \<le> 4096"
  shows "\<exists>s1 s2. evaluate_instruction env s instruction = Some (Inr (False, s1))
     \<and> evaluate_instruction env' s1 instruction = Some (Inr (False, s2))
     \<and> display_buffer s2 = display_buffer s
     \<and> (gp_registers s2 0xf = 1
          \<longleftrightarrow> (\<exists>p < length (display_buffer s). \<not> display_buffer s ! p \<and> display_buffer s1 ! p))
     \<and> (gp_registers s2 0xf = 0
          \<longleftrightarrow> \<not> (\<exists>p < length (display_buffer s). \<not> display_buffer s ! p \<and> display_buffer s1 ! p))"
proof -
  have c: "instruction \<noteq> 0x00e0" "instruction \<noteq> 0x00ee" "instruction AND 0xf000 \<noteq> 0"
    using m by auto
  have f: "instruction AND 0xf00f \<noteq> 0x5000" "instruction AND 0xf00f \<noteq> 0x8000"
    "instruction AND 0xf00f \<noteq> 0x8001" "instruction AND 0xf00f \<noteq> 0x8002"
    "instruction AND 0xf00f \<noteq> 0x8003" "instruction AND 0xf00f \<noteq> 0x8004"
    "instruction AND 0xf00f \<noteq> 0x8005" "instruction AND 0xf00f \<noteq> 0x8006"
    "instruction AND 0xf00f \<noteq> 0x8007" "instruction AND 0xf00f \<noteq> 0x800e"
    "instruction AND 0xf00f \<noteq> 0x9000"
    using m mask_f000_of_f00f[of instruction] by auto
  have e: "evaluate_instruction ev t instruction = returns_or_throws (draw_sprite t x y n)" for ev t
    using x y n by (simp add: evaluate_instruction_def c f m)
  have len: "length (display_buffer s) = SCREEN_WIDTH * SCREEN_HEIGHT"
    and mem: "unat n = 0 \<or> unat (i_register s) + unat n \<le> length (memory s)"
    using wf inr by (simp_all add: wf_emulator_def)
  from draw_sprite_twice[OF len mem, of x y] obtain s1 s2 where
    d: "draw_sprite s x y n = Inr s1" "draw_sprite s1 x y n = Inr s2"
    "display_buffer s2 = display_buffer s"
    "gp_registers s2 0xf
         = (if \<exists>p < length (display_buffer s). \<not> display_buffer s ! p \<and> display_buffer s1 ! p
            then 1 else 0)"
    by blast
  have "evaluate_instruction env s instruction = Some (Inr (False, s1))"
    "evaluate_instruction env' s1 instruction = Some (Inr (False, s2))"
    by (simp_all add: e d returns_or_throws_def)
  moreover have "gp_registers s2 0xf = 1
          \<longleftrightarrow> (\<exists>p < length (display_buffer s). \<not> display_buffer s ! p \<and> display_buffer s1 ! p)"
    "gp_registers s2 0xf = 0
          \<longleftrightarrow> \<not> (\<exists>p < length (display_buffer s). \<not> display_buffer s ! p \<and> display_buffer s1 ! p)"
    by (simp_all add: d(4))
  ultimately show ?thesis using d(3) by blast
qed

theorem draw_twice_restores_witness:
  "wf_emulator sprite_emulator
   \<and> (0xd015 :: u16) AND 0xf000 = 0xd000
   \<and> get_nibble 0xd015 1 = Inr 0 \<and> get_nibble 0xd015 2 = Inr 1 \<and> get_nibble 0xd015 3 = Inr 5
   \<and> (unat (5 :: u4) = 0 \<or> unat (i_register sprite_emulator) + unat (5 :: u4) \<le> 4096)
   \<and> (\<exists>s1 s2. evaluate_instruction quiet_environment sprite_emulator 0xd015 = Some (Inr (False, s1))
         \<and> evaluate_instruction quiet_environment s1 0xd015 = Some (Inr (False, s2))
         \<and> display_buffer s2 = display_buffer sprite_emulator)
   \<and> wf_emulator past_end_emulator
   \<and> (0xd010 :: u16) AND 0xf000 = 0xd000
   \<and> get_nibble 0xd010 1 = Inr 0 \<and> get_nibble 0xd010 2 = Inr 1 \<and> get_nibble 0xd010 3 = Inr 0
   \<and> (unat (0 :: u4) = 0 \<or> unat (i_register past_end_emulator) + unat (0 :: u4) \<le> 4096)
   \<and> (\<exists>s1 s2. evaluate_instruction quiet_environment past_end_emulator 0xd010 = Some (Inr (False, s1))
         \<and> evaluate_instruction quiet_environment s1 0xd010 = Some (Inr (False, s2))
         \<and> display_buffer s2 = display_buffer past_end_emulator)"
proof -
  have wf: "wf_emulator sprite_emulator"
    by (simp add: wf_emulator_def sprite_emulator_def poke_def blank_emulator_def
        SCREEN_WIDTH_def SCREEN_HEIGHT_def)
  have m: "(0xd015 :: u16) AND 0xf000 = 0xd000" by simp
  have x: "get_nibble 0xd015 1 = Inr 0" by (simp add: get_nibble_def u4_of_def)
  have y: "get_nibble 0xd015 2 = Inr 1" by (simp add: get_nibble_def u4_of_def)
  have n: "get_nibble 0xd015 3 = Inr 5" by (simp add: get_nibble_def u4_of_def)
  have inr: "unat (5 :: u4) = 0 \<or> unat (i_register sprite_emulator) + unat (5 :: u4) \<le> 4096"
    by (simp add: sprite_emulator_def)
  from draw_twice_restores[OF wf m x y n inr, of quiet_environment quiet_environment]
  have a: "\<exists>s1 s2. evaluate_instruction quiet_environment sprite_emulator 0xd015 = Some (Inr (False, s1))
         \<and> evaluate_instruction quiet_environment s1 0xd015 = Some (Inr (False, s2))
         \<and> display_buffer s2 = display_buffer sprite_emulator"
    by blast
  have wf0: "wf_emulator past_end_emulator"
    by (simp add: wf_emulator_def past_end_emulator_def blank_emulator_def
        SCREEN_WIDTH_def SCREEN_HEIGHT_def)
  have m0: "(0xd010 :: u16) AND 0xf000 = 0xd000" by simp
  have x0: "get_nibble 0xd010 1 = Inr 0" by (simp add: get_nibble_def u4_of_def)
  have y0: "get_nibble 0xd010 2 = Inr 1" by (simp add: get_nibble_def u4_of_def)
  have n0: "get_nibble 0xd010 3 = Inr 0" by (simp add: get_nibble_def u4_of_def)
  have inr0: "unat (0 :: u4) = 0 \<or> unat (i_register past_end_emulator) + unat (0 :: u4) \<le> 4096"
    by simp
  from draw_twice_restores[OF wf0 m0 x0 y0 n0 inr0, of quiet_environment quiet_environment]
  have b: "\<exists>s1 s2. evaluate_instruction quiet_environment past_end_emulator 0xd010 = Some (Inr (False, s1))
         \<and> evaluate_instruction quiet_environment s1 0xd010 = Some (Inr (False, s2))
         \<and> display_buffer s2 = display_buffer past_end_emulator"
    by blast
  from wf m x y n inr a wf0 m0 x0 y0 n0 inr0 b show ?thesis by blast
qed

text \<open>
  Claim C10. The draw reads the rows \<open>memory[I]\<close> to \<open>memory[I + N - 1]\<close> and checks no
  index: in a state with 4096 bytes of memory it leaves the memory exactly when it has a
  row to read and I + N exceeds 4096, and returns otherwise, so under I + N \<le> 4096
  every read is inside, and beyond it nothing is thrown. The BCD write and the call
  check their address first: they throw and never index outside the memory.
\<close>

theorem draw_sprite_reads_unguarded:
  assumes wf: "wf_emulator s"
  shows "(draw_sprite s x y n = Inl OutOfRange)
           = (0 < unat n \<and> 4096 < unat (i_register s) + unat n)
     \<and> (\<exists>s'. draw_sprite s x y n = Inr s')
           = (unat n = 0 \<or> unat (i_register s) + unat n \<le> 4096)
     \<and> (load_bcd s r = Inl BcdOutsideMemory) = (4094 \<le> unat (i_register s))
     \<and> load_bcd s r \<noteq> Inl OutOfRange
     \<and> (call s t = Inl CallOutsideMemory) = (unat (stack_pointer s) \<le> 15 \<and> 4095 \<le> unat t)
     \<and> call s t \<noteq> Inl OutOfRange"
proof -
  have len: "length (memory s) = 4096" "length (stack_frames s) = 16"
    using wf by (simp_all add: wf_emulator_def)
  have a: "draw_sprite s x y n = Inl OutOfRange"
    if "0 < unat n" "4096 < unat (i_register s) + unat n"
    using draw_sprite_fails[of s n x y] that len by simp
  have b: "\<exists>s'. draw_sprite s x y n = Inr s'"
    if "unat n = 0 \<or> unat (i_register s) + unat n \<le> 4096"
  proof (cases "unat n = 0")
    case True
    then show ?thesis
      by (simp add: draw_sprite_def Let_def draw_rows.simps)
  next
    case False
    with that show ?thesis using draw_sprite_returns[of s n x y] len by simp
  qed
  have 1: "(draw_sprite s x y n = Inl OutOfRange)
           = (0 < unat n \<and> 4096 < unat (i_register s) + unat n)"
    using a b by (cases "0 < unat n \<and> 4096 < unat (i_register s) + unat n") auto
  have 2: "(\<exists>s'. draw_sprite s x y n = Inr s')
           = (unat n = 0 \<or> unat (i_register s) + unat n \<le> 4096)"
    using a b by (cases "0 < unat n \<and> 4096 < unat (i_register s) + unat n") auto
  have 3: "(load_bcd s r = Inl BcdOutsideMemory) = (4094 \<le> unat (i_register s))"
    "load_bcd s r \<noteq> Inl OutOfRange"
    by (simp_all add: load_bcd_def write_at_def len Let_def)
  have 4: "(call s t = Inl CallOutsideMemory) = (unat (stack_pointer s) \<le> 15 \<and> 4095 \<le> unat t)"
    "call s t \<noteq> Inl OutOfRange"
    by (auto simp add: call_def write_at_def len)
  from 1 2 3 4 show ?thesis by blast
qed

theorem draw_sprite_reads_unguarded_witness:
  "wf_emulator blank_emulator
   \<and> wf_emulator (blank_emulator\<lparr>i_register := 0xfff\<rparr>)
   \<and> (\<exists>s'. draw_sprite blank_emulator 0 1 5 = Inr s')
   \<and> draw_sprite (blank_emulator\<lparr>i_register := 0xfff\<rparr>) 0 1 2 = Inl OutOfRange
   \<and> load_bcd (blank_emulator\<lparr>i_register := 0xfff\<rparr>) 0 = Inl BcdOutsideMemory"
proof -
  have wf: "wf_emulator blank_emulator" "wf_emulator (blank_emulator\<lparr>i_register := 0xfff\<rparr>)"
    by (simp_all add: wf_emulator_def blank_emulator_def SCREEN_WIDTH_def SCREEN_HEIGHT_def)
  have "\<exists>s'. draw_sprite blank_emulator 0 1 5 = Inr s'"
    using draw_sprite_reads_unguarded[OF wf(1), of 0 1 5] by (simp add: blank_emulator_def)
  moreover have "draw_sprite (blank_emulator\<lparr>i_register := 0xfff\<rparr>) 0 1 2 = Inl OutOfRange"
    "load_bcd (blank_emulator\<lparr>i_register := 0xfff\<rparr>) 0 = Inl BcdOutsideMemory"
    using draw_sprite_reads_unguarded[OF wf(2), of 0 1 2 0] by simp_all
  ultimately show ?thesis using wf by blast
qed

section \<open>Loading a program\<close>

lemma whitespace_chars: "(\<lambda>c. c \<in> set [CHR 0x20, CHR 0x09, CHR 0x0D, CHR 0x0A, CHR 0x0B, CHR 0x0C]) = isspace"
  by (rule ext) (auto simp add: isspace_def)

lemma find_first_not_of_whitespace:
  "find_first_not_of line [CHR 0x20, CHR 0x09, CHR 0x0D, CHR 0x0A, CHR 0x0B, CHR 0x0C]
     = (if length (takeWhile isspace line) < length line
        then Some (length (takeWhile isspace line)) else None)"
  by (simp only: find_first_not_of_def whitespace_chars Let_def)

lemma takeWhile_short: "\<not> list_all P xs \<Longrightarrow> length (takeWhile P xs) < length xs"
  by (induction xs) auto

lemma parse_line_no_escape: "parse_line line \<noteq> Escaped e"
proof (cases "list_all isspace line")
  case True
  then show ?thesis by (simp add: parse_line_def)
next
  case False
  from takeWhile_short[OF this] show ?thesis
    using False
    by (simp add: parse_line_def find_first_not_of_whitespace substr_def split: sum.splits)
qed

lemma parse_line_rejected:
  assumes p: "starts_with (dropWhile isspace line) ''0x''"
    and e: "stoi_hex (drop 2 (dropWhile isspace line)) = Inl e"
  shows "parse_line line = Rejected"
proof -
  let ?k = "length (takeWhile isspace line)"
  let ?rest = "dropWhile isspace line"
  have d: "drop ?k line = ?rest" by (simp add: dropWhile_eq_drop)
  have "take (length ''0x'') ?rest = ''0x''" using p unfolding starts_with_def .
  then have "length (take (length ''0x'') ?rest) = length ''0x''" by (rule arg_cong)
  then have len2: "2 \<le> length ?rest" by simp
  have ne: "?rest \<noteq> []"
  proof
    assume "?rest = []"
    with len2 show False by (metis list.size(3) not_numeral_le_zero)
  qed
  have nall: "list_all isspace line = False"
  proof (cases "list_all isspace line")
    case True
    then have "?rest = []" by (simp add: list_all_iff)
    with ne show ?thesis by simp
  next
    case False
    then show ?thesis by simp
  qed
  have k: "?k < length line" using takeWhile_short[of isspace line] nall by simp
  have lenrest: "length ?rest = length line - ?k" using d by (metis length_drop)
  have f: "find_first_not_of line [CHR 0x20, CHR 0x09, CHR 0x0D, CHR 0x0A, CHR 0x0B, CHR 0x0C]
             = Some ?k"
    using k by (simp only: find_first_not_of_whitespace if_True)
  have s1: "substr line ?k (length line - ?k) = Inr ?rest"
  proof -
    have "take (length line - ?k) (drop ?k line) = drop ?k line" by simp
    with k d show ?thesis by (simp add: substr_def)
  qed
  have s2: "substr line (?k + 2) (length line - (?k + 2)) = Inr (drop 2 ?rest)"
  proof -
    have "take (length line - (?k + 2)) (drop (?k + 2) line) = drop (?k + 2) line" by simp
    moreover have "drop (?k + 2) line = drop 2 ?rest" using d by (metis drop_drop add.commute)
    moreover have "\<not> length line < ?k + 2" using len2 lenrest by simp
    ultimately show ?thesis by (simp only: substr_def if_False)
  qed
  have p': "starts_with ?rest ''0x'' = True" using p by simp
  show ?thesis
    unfolding parse_line_def
    by (simp only: nall f s1 s2 p' e if_False if_True not_True_eq_False option.case sum.case)
qed

lemma load_program_loop_rejects:
  "line \<in> set (program_lines program_text current_pos) \<Longrightarrow> parse_line line = Rejected \<Longrightarrow>
   load_program_loop program_text current_pos bytes = Inr None"
proof (induction program_text current_pos bytes rule: load_program_loop.induct)
  case (1 program_text current_pos bytes)
  show ?case
  proof (cases "current_pos < length program_text")
    case True
    let ?next = "next_line_pos program_text current_pos"
    let ?line = "take (?next - current_pos) (drop current_pos program_text)"
    have sub: "substr program_text current_pos (?next - current_pos) = Inr ?line"
      using True by (simp add: substr_def)
    have mem: "line = ?line \<or> line \<in> set (program_lines program_text ?next)"
      using "1.prems"(1) True by (subst (asm) program_lines.simps) simp
    show ?thesis
    proof (cases "parse_line ?line")
      case Skipped
      with mem "1.prems"(2) have "line \<in> set (program_lines program_text ?next)" by auto
      from "1.IH"(1)[OF True refl sub Skipped this "1.prems"(2)] show ?thesis
        using True sub Skipped by (subst load_program_loop.simps) simp
    next
      case (Parsed w)
      with mem "1.prems"(2) have "line \<in> set (program_lines program_text ?next)" by auto
      from "1.IH"(2)[OF True refl sub Parsed this "1.prems"(2)] show ?thesis
        using True sub Parsed by (subst load_program_loop.simps) simp
    next
      case Rejected
      then show ?thesis
        using True sub by (subst load_program_loop.simps) simp
    next
      case (Escaped x)
      then show ?thesis using parse_line_no_escape by blast
    qed
  next
    case False
    with "1.prems"(1) show ?thesis by (subst (asm) program_lines.simps) simp
  qed
qed

lemma find_from_bound:
  "find_from str pat pos = Some r \<Longrightarrow> pos \<le> r \<and> r + length pat \<le> length str"
proof (induction str pat pos rule: find_from.induct)
  case (1 str pat pos)
  then show ?case
    by (subst (asm) (2) find_from.simps) (auto split: if_splits)
qed

lemma concat_program_lines:
  "concat (program_lines program_text current_pos) = drop current_pos program_text"
proof (induction program_text current_pos rule: program_lines.induct)
  case (1 program_text current_pos)
  show ?case
  proof (cases "current_pos < length program_text")
    case True
    let ?next = "next_line_pos program_text current_pos"
    have le: "current_pos \<le> ?next"
      using find_from_bound[of program_text "[CHR 0x0A]" current_pos]
        find_from_bound[of program_text "[CHR 0x0D, CHR 0x0A]" current_pos] True
      by (auto simp add: next_line_pos_def split: option.splits)
    have "concat (program_lines program_text current_pos)
          = take (?next - current_pos) (drop current_pos program_text)
              @ concat (program_lines program_text ?next)"
      using True by (subst program_lines.simps) simp
    also have "\<dots> = take (?next - current_pos) (drop current_pos program_text)
              @ drop ?next program_text"
      using "1.IH"[OF True] by simp
    also have "\<dots> = take (?next - current_pos) (drop current_pos program_text)
              @ drop (?next - current_pos) (drop current_pos program_text)"
      using le by simp
    also have "\<dots> = drop current_pos program_text"
      by (rule append_take_drop_id)
    finally show ?thesis .
  next
    case False
    then show ?thesis by (subst program_lines.simps) simp
  qed
qed

text \<open>
  Claim C8, as stated: whenever a line starts with 0x (after leading white space) and
  what follows is not a well-formed hexadecimal word, the load returns false and leaves
  the memory alone. The word is read by \<open>std::stoi\<close>, which stops at the first
  character that is not a digit: the text \<open>0x12zz\<close> is loaded as the word 0x0012.
\<close>

theorem load_program_accepts_trailing_text:
  "(case load_program blank_emulator ''0x12zz'' of
      Inr (ok, s') \<Rightarrow> ok \<and> memory s' ! 0x201 = 0x12
    | Inl e \<Rightarrow> False)
   \<and> memory blank_emulator ! 0x201 = 0
   \<and> \<not> list_all isxdigit ''12zz''"
  by code_simp

text \<open>
  Claim C8, amended: whenever some line of the program text starts with 0x (after leading
  white space) and \<open>std::stoi\<close> rejects what follows, because no hexadecimal digit
  comes first (after optional white space, sign and 0x) or because the value is not an
  \<open>int\<close>, the load returns false and the emulator, its memory included, is unchanged:
  no byte of any line is written.
\<close>

theorem load_program_rejects:
  assumes "line \<in> set (program_lines program_text 0)"
    and "starts_with (dropWhile isspace line) ''0x''"
    and "stoi_hex (drop 2 (dropWhile isspace line)) = Inl e"
  shows "load_program s program_text = Inr (False, s)"
  using load_program_loop_rejects[OF assms(1) parse_line_rejected[OF assms(2,3)], of "[]"]
  by (simp add: load_program_def)

theorem load_program_rejects_witness:
  "'' 0xzz12'' @ [CHR 0x0D, CHR 0x0A] \<in> set (program_lines rejected_program 0)
   \<and> starts_with (dropWhile isspace ('' 0xzz12'' @ [CHR 0x0D, CHR 0x0A])) ''0x''
   \<and> stoi_hex (drop 2 (dropWhile isspace ('' 0xzz12'' @ [CHR 0x0D, CHR 0x0A]))) = Inl invalid_argument
   \<and> load_program blank_emulator rejected_program = Inr (False, blank_emulator)"
proof -
  have a: "'' 0xzz12'' @ [CHR 0x0D, CHR 0x0A] \<in> set (program_lines rejected_program 0)"
    by code_simp
  have b: "starts_with (dropWhile isspace ('' 0xzz12'' @ [CHR 0x0D, CHR 0x0A])) ''0x''"
    by code_simp
  have c: "stoi_hex (drop 2 (dropWhile isspace ('' 0xzz12'' @ [CHR 0x0D, CHR 0x0A]))) = Inl invalid_argument"
    by code_simp
  from load_program_rejects[OF a b c, of blank_emulator] a b c show ?thesis by blast
qed

section \<open>Handing a key to a blocked request\<close>

lemma poll_key_down:
  assumes "event_type e = SDL_EVENT_KEY_DOWN" "\<not> key_repeat e" "key_index (key_code e) = Some i"
  shows "poll_event e kb
     = Some (kb\<lparr>key_channel := send_if_requested (key_channel kb) (u4_of i),
               keyboard_state' := (keyboard_state' kb)(u4_of i := True)\<rparr>)"
  using assms by (simp add: poll_event_def Let_def)

text \<open>
  Claim C9. A key-down is an event of type key-down that is not a repeat, for one of the
  sixteen keys; \<open>poll_events\<close> skips every other event before it touches the channel.
  While the message slot is empty (as it is at construction and after every request
  that has returned): a key-down with no request pending leaves the channel as it is and
  only sets the key in the pressed vector; a request that has registered stays blocked
  until a key-down comes, which puts its key into the slot and clears the pending flag,
  and the request returns that key and empties the slot; a further key-down, delivered
  before or after the request has returned, only sets its key in the pressed vector, and
  nothing is left for the request to take a second time. The registration runs under
  the lock up to the wait, so a key-down comes either before it, and finds no request, or
  after it, and is handed over.
\<close>

theorem key_request_handed_over_once:
  assumes empty: "message (key_channel kb) = None"
    and e: "event_type e = SDL_EVENT_KEY_DOWN" "\<not> key_repeat e" "key_index (key_code e) = Some i"
    and e': "event_type e' = SDL_EVENT_KEY_DOWN" "\<not> key_repeat e'" "key_index (key_code e') = Some i'"
  shows "(\<not> is_request_pending (key_channel kb) \<longrightarrow>
            poll_event e kb = Some (kb\<lparr>keyboard_state' := (keyboard_state' kb)(u4_of i := True)\<rparr>))
     \<and> request_receive (request_register (key_channel kb)) = None
     \<and> poll_event e (kb\<lparr>key_channel := request_register (key_channel kb)\<rparr>)
         = Some (kb\<lparr>key_channel := \<lparr>is_request_pending = False, message = Some (u4_of i)\<rparr>,
                   keyboard_state' := (keyboard_state' kb)(u4_of i := True)\<rparr>)
     \<and> request_receive \<lparr>is_request_pending = False, message = Some (u4_of i)\<rparr>
         = Some (u4_of i, \<lparr>is_request_pending = False, message = None\<rparr>)
     \<and> poll_event e' (kb\<lparr>key_channel := \<lparr>is_request_pending = False, message = Some (u4_of i)\<rparr>\<rparr>)
         = Some (kb\<lparr>key_channel := \<lparr>is_request_pending = False, message = Some (u4_of i)\<rparr>,
                   keyboard_state' := (keyboard_state' kb)(u4_of i' := True)\<rparr>)
     \<and> poll_event e' (kb\<lparr>key_channel := \<lparr>is_request_pending = False, message = None\<rparr>\<rparr>)
         = Some (kb\<lparr>key_channel := \<lparr>is_request_pending = False, message = None\<rparr>,
                   keyboard_state' := (keyboard_state' kb)(u4_of i' := True)\<rparr>)
     \<and> request_receive \<lparr>is_request_pending = False, message = None\<rparr> = None"
proof -
  show ?thesis
    using empty
    by (simp add: poll_key_down[OF e] poll_key_down[OF e'] send_if_requested_def
        request_register_def request_receive_def)
qed

theorem key_request_handed_over_once_witness:
  "message (key_channel idle_keyboard) = None
   \<and> key_index 0x61 = Some 0xa \<and> key_index 0x33 = Some 3
   \<and> poll_event (key_down 0x61) idle_keyboard
       = Some (idle_keyboard\<lparr>keyboard_state' := (keyboard_state' idle_keyboard)(0xa := True)\<rparr>)
   \<and> poll_event (key_down 0x61)
         (idle_keyboard\<lparr>key_channel := request_register (key_channel idle_keyboard)\<rparr>)
       = Some (idle_keyboard\<lparr>key_channel := \<lparr>is_request_pending = False, message = Some 0xa\<rparr>,
                 keyboard_state' := (keyboard_state' idle_keyboard)(0xa := True)\<rparr>)
   \<and> request_receive \<lparr>is_request_pending = False, message = Some 0xa\<rparr>
       = Some (0xa, \<lparr>is_request_pending = False, message = None\<rparr>)
   \<and> poll_event (key_down 0x33)
         (idle_keyboard\<lparr>key_channel := \<lparr>is_request_pending = False, message = None\<rparr>\<rparr>)
       = Some (idle_keyboard\<lparr>key_channel := \<lparr>is_request_pending = False, message = None\<rparr>,
                 keyboard_state' := (keyboard_state' idle_keyboard)(3 := True)\<rparr>)"
proof -
  have empty: "message (key_channel idle_keyboard) = None" by (simp add: idle_keyboard_def)
  have k: "key_index 0x61 = Some 0xa" "key_index 0x33 = Some 3"
    by (simp_all add: key_index_def SDLK_0_def SDLK_9_def SDLK_A_def SDLK_F_def)
  have e: "event_type (key_down 0x61) = SDL_EVENT_KEY_DOWN" "\<not> key_repeat (key_down 0x61)"
    "key_index (key_code (key_down 0x61)) = Some 0xa"
    using k by (simp_all add: key_down_def)
  have e': "event_type (key_down 0x33) = SDL_EVENT_KEY_DOWN" "\<not> key_repeat (key_down 0x33)"
    "key_index (key_code (key_down 0x33)) = Some 3"
    using k by (simp_all add: key_down_def)
  have np: "\<not> is_request_pending (key_channel idle_keyboard)" by (simp add: idle_keyboard_def)
  from key_request_handed_over_once[OF empty e e'] np empty k show ?thesis
    by (simp add: u4_of_def)
qed

end
